theory Spec2Isabelle
  imports Main "HOL-Library.AList"
begin

unbundle bit_operations_syntax

section \<open>The sparse Merkle tree of the SMT exclusion client (smt.ts)\<close>

text \<open>
  The development embeds the TypeScript module that maintains the blacklist tree:
  the Poseidon handle, the byte and hex helpers, and the class \<open>SparseMerkleTree\<close>.

  \<^item> A \<open>bigint\<close> is an \<open>int\<close>; \<open>>> 1n\<close> is \<open>drop_bit 1\<close> (floor division by two) and
    \<open>& 1n\<close> is \<open>AND 1\<close>, both on unbounded two's complement integers as in JavaScript.
  \<^item> A \<open>number[]\<close> of bytes is an \<open>int list\<close> (its elements are whole numbers);
    reading past its end yields \<open>undefined\<close>, on which \<open>BigInt\<close> throws a \<open>TypeError\<close>.
  \<^item> The module variable \<open>poseidonInstance\<close> is a \<open>Poseidon option\<close> handed to every
    function that reads it; a \<open>Poseidon\<close> is the two-argument compression
    \<open>F.toObject(poseidon([left, right]))\<close> of the external library.
  \<^item> A thrown exception is the left injection of a sum.
  \<^item> A JavaScript \<open>Map\<close> is an association list in insertion order: \<open>Map.set\<close> is
    \<open>AList.update\<close> (replace in place, else append), \<open>Map.get\<close> is \<open>map_of\<close>.
    The maps of the class are keyed by \<open>index.toString()\<close> and every key read back goes
    through \<open>BigInt(indexStr)\<close>; decimal rendering is injective and \<open>BigInt\<close> inverts it
    (lemmas \<open>toString10_inject\<close> and \<open>BigInt_toString\<close>), so the model keys the maps by
    the index itself.
\<close>

subsection \<open>Errors and the hasher handle\<close>

datatype error = PoseidonNotInitialized | TypeError

type_synonym Poseidon = "int \<Rightarrow> int \<Rightarrow> int"

definition TREE_DEPTH :: nat where
  "TREE_DEPTH = 254"

definition getPoseidon :: "Poseidon option \<Rightarrow> error + Poseidon" where
  "getPoseidon poseidonInstance =
     (case poseidonInstance of
        None \<Rightarrow> Inl PoseidonNotInitialized
      | Some p \<Rightarrow> Inr p)"

definition poseidonHash2 :: "Poseidon option \<Rightarrow> int \<Rightarrow> int \<Rightarrow> error + int" where
  "poseidonHash2 poseidonInstance left right =
     (case getPoseidon poseidonInstance of
        Inl e \<Rightarrow> Inl e
      | Inr poseidon \<Rightarrow> Inr (poseidon left right))"

text \<open>A loop whose body may throw: the first exception ends it.\<close>

fun foldE :: "('s \<Rightarrow> 'a \<Rightarrow> error + 's) \<Rightarrow> 'a list \<Rightarrow> 's \<Rightarrow> error + 's" where
  "foldE f [] s = Inr s"
| "foldE f (x # xs) s = (case f s x of Inl e \<Rightarrow> Inl e | Inr s' \<Rightarrow> foldE f xs s')"

subsection \<open>Bytes to field, index derivation\<close>

text \<open>\<open>BigInt(bytes[k])\<close>: the element, or a \<open>TypeError\<close> on \<open>undefined\<close>.\<close>

definition BigInt_at :: "int list \<Rightarrow> nat \<Rightarrow> error + int" where
  "BigInt_at bytes k = (if k < length bytes then Inr (bytes ! k) else Inl TypeError)"

function bytes16ToField_loop :: "int list \<Rightarrow> nat \<Rightarrow> nat \<Rightarrow> int \<Rightarrow> int \<Rightarrow> error + int" where
  "bytes16ToField_loop bytes start i result multiplier =
     (if i < 16 then
        (case BigInt_at bytes (start + i) of
           Inl e \<Rightarrow> Inl e
         | Inr b \<Rightarrow> bytes16ToField_loop bytes start (i + 1) (result + b * multiplier) (multiplier * 256))
      else Inr result)"
  by pat_completeness auto
termination
  by (relation "measure (\<lambda>(bytes, start, i, result, multiplier). 16 - i)") auto

declare bytes16ToField_loop.simps [simp del]

definition bytes16ToField :: "int list \<Rightarrow> nat \<Rightarrow> error + int" where
  "bytes16ToField bytes start = bytes16ToField_loop bytes start 0 0 1"

definition pubkeyToIndex :: "Poseidon option \<Rightarrow> int list \<Rightarrow> error + int" where
  "pubkeyToIndex poseidonInstance pubkey =
     (case bytes16ToField pubkey 0 of
        Inl e \<Rightarrow> Inl e
      | Inr low \<Rightarrow>
          (case bytes16ToField pubkey 16 of
             Inl e \<Rightarrow> Inl e
           | Inr high \<Rightarrow> poseidonHash2 poseidonInstance low high))"

text \<open>
  The value the specification names: a run of bytes read as a little-endian integer.
\<close>

fun le_value :: "int list \<Rightarrow> int" where
  "le_value [] = 0"
| "le_value (b # bs) = b + 256 * le_value bs"

subsection \<open>Hex rendering\<close>

definition hexDigit :: "nat \<Rightarrow> char" where
  "hexDigit d = ''0123456789abcdef'' ! d"

fun natToHex :: "nat \<Rightarrow> string" where
  "natToHex n = (if n < 16 then [hexDigit n] else natToHex (n div 16) @ [hexDigit (n mod 16)])"

declare natToHex.simps [simp del]

text \<open>\<open>f.toString(16)\<close> of a bigint: a minus sign for a negative value, then the digits.\<close>

definition toString16 :: "int \<Rightarrow> string" where
  "toString16 f = (if f < 0 then CHR ''-'' # natToHex (nat (- f)) else natToHex (nat f))"

definition padStart :: "nat \<Rightarrow> char \<Rightarrow> string \<Rightarrow> string" where
  "padStart n c s = replicate (n - length s) c @ s"

definition fieldToHex :: "int \<Rightarrow> string" where
  "fieldToHex f = ''0x'' @ padStart 64 (CHR ''0'') (toString16 f)"

text \<open>Reading a big-endian string of lowercase hex digits back, as the specification's
  "canonical big-endian hex" is understood.\<close>

definition hexDigitValue :: "char \<Rightarrow> nat" where
  "hexDigitValue c = (if c \<in> set ''0123456789'' then of_char c - 48 else of_char c - 87)"

definition hexValue :: "string \<Rightarrow> nat" where
  "hexValue s = foldl (\<lambda>acc c. 16 * acc + hexDigitValue c) 0 s"

subsection \<open>Decimal map keys\<close>

text \<open>
  \<open>index.toString()\<close> of a bigint, and \<open>BigInt(indexStr)\<close> on the strings it produces
  (\<open>BigInt\<close> accepts other spellings too; the maps hold none).
\<close>

definition decDigit :: "nat \<Rightarrow> char" where
  "decDigit d = ''0123456789'' ! d"

fun natToDec :: "nat \<Rightarrow> string" where
  "natToDec n = (if n < 10 then [decDigit n] else natToDec (n div 10) @ [decDigit (n mod 10)])"

declare natToDec.simps [simp del]

definition toString10 :: "int \<Rightarrow> string" where
  "toString10 i = (if i < 0 then CHR ''-'' # natToDec (nat (- i)) else natToDec (nat i))"

definition decValue :: "string \<Rightarrow> nat" where
  "decValue s = foldl (\<lambda>acc c. 10 * acc + (of_char c - 48)) 0 s"

definition BigInt_ofString :: "string \<Rightarrow> int" where
  "BigInt_ofString s =
     (case s of
        [] \<Rightarrow> 0
      | c # ds \<Rightarrow> if c = CHR ''-'' then - int (decValue ds) else int (decValue s))"

subsection \<open>Path bits\<close>

fun getPathBits_loop :: "nat \<Rightarrow> nat \<Rightarrow> int \<Rightarrow> bool list \<Rightarrow> bool list" where
  "getPathBits_loop 0 i val bits = bits"
| "getPathBits_loop (Suc n) i val bits =
     getPathBits_loop n (i + 1) (drop_bit 1 val) (bits @ [val AND 1 = 1])"

text \<open>The first argument of the loop counts the iterations left: \<open>TREE_DEPTH - i\<close>.\<close>

definition getPathBits :: "int \<Rightarrow> bool list" where
  "getPathBits index = getPathBits_loop TREE_DEPTH 0 index []"

subsection \<open>The class SparseMerkleTree\<close>

record SparseMerkleTree =
  leaves :: "(int \<times> int) list"
  defaultHashes :: "int list"

text \<open>
  The constructor fills \<open>defaultHashes[0..TREE_DEPTH]\<close> in index order; the list is the
  part of the array assigned so far, so the assignment to slot \<open>i\<close> appends.
  An exception leaves no object.
\<close>

definition SparseMerkleTree_constructor :: "Poseidon option \<Rightarrow> error + SparseMerkleTree" where
  "SparseMerkleTree_constructor poseidonInstance =
     (case foldE (\<lambda>dh i.
               let prev = dh ! (i - 1) in
               (case poseidonHash2 poseidonInstance prev prev of
                  Inl e \<Rightarrow> Inl e
                | Inr v \<Rightarrow> Inr (dh @ [v])))
             [1..<TREE_DEPTH + 1] [0] of
        Inl e \<Rightarrow> Inl e
      | Inr dh \<Rightarrow> Inr \<lparr>leaves = [], defaultHashes = dh\<rparr>)"

text \<open>\<open>insert(pubkey, value = 1n)\<close>; \<open>insert_default\<close> is the call without a value.\<close>

definition insert_smt ::
  "Poseidon option \<Rightarrow> int list \<Rightarrow> int \<Rightarrow> SparseMerkleTree \<Rightarrow> error + SparseMerkleTree" where
  "insert_smt poseidonInstance pubkey value t =
     (case pubkeyToIndex poseidonInstance pubkey of
        Inl e \<Rightarrow> Inl e
      | Inr index \<Rightarrow> Inr (t\<lparr>leaves := AList.update index value (leaves t)\<rparr>))"

definition insert_default ::
  "Poseidon option \<Rightarrow> int list \<Rightarrow> SparseMerkleTree \<Rightarrow> error + SparseMerkleTree" where
  "insert_default poseidonInstance pubkey t = insert_smt poseidonInstance pubkey 1 t"

definition get :: "Poseidon option \<Rightarrow> int list \<Rightarrow> SparseMerkleTree \<Rightarrow> error + int" where
  "get poseidonInstance pubkey t =
     (case pubkeyToIndex poseidonInstance pubkey of
        Inl e \<Rightarrow> Inl e
      | Inr index \<Rightarrow> Inr (case map_of (leaves t) index of Some v \<Rightarrow> v | None \<Rightarrow> 0))"

definition isBlacklisted :: "Poseidon option \<Rightarrow> int list \<Rightarrow> SparseMerkleTree \<Rightarrow> error + bool" where
  "isBlacklisted poseidonInstance pubkey t =
     (case get poseidonInstance pubkey t of
        Inl e \<Rightarrow> Inl e
      | Inr v \<Rightarrow> Inr (v \<noteq> 0))"

text \<open>Copying a map entry by entry into a fresh one, as both tree walks begin.\<close>

definition copyMap :: "(int \<times> int) list \<Rightarrow> (int \<times> int) list" where
  "copyMap m = foldl (\<lambda>currentLevel (indexStr, value). AList.update indexStr value currentLevel) [] m"

text \<open>One pass of the inner loop of \<open>getRoot\<close> over all entries of \<open>currentLevel\<close>.\<close>

definition rootNextLevel ::
  "Poseidon option \<Rightarrow> int \<Rightarrow> (int \<times> int) list \<Rightarrow> error + (int \<times> int) list" where
  "rootNextLevel poseidonInstance dflt currentLevel =
     foldE (\<lambda>nextLevel (index, value).
              let parentIndex = drop_bit 1 index;
                  isRightChild = (index AND 1 = 1);
                  siblingIndex = (if isRightChild then index - 1 else index + 1);
                  sibling = (case map_of currentLevel siblingIndex of Some s \<Rightarrow> s | None \<Rightarrow> dflt);
                  (left, right) = (if isRightChild then (sibling, value) else (value, sibling))
              in (case poseidonHash2 poseidonInstance left right of
                    Inl e \<Rightarrow> Inl e
                  | Inr parentValue \<Rightarrow> Inr (AList.update parentIndex parentValue nextLevel)))
           currentLevel []"

text \<open>The outer loop of \<open>getRoot\<close>: \<open>currentLevel\<close> after all \<open>TREE_DEPTH\<close> levels.\<close>

definition getRoot_levels :: "Poseidon option \<Rightarrow> SparseMerkleTree \<Rightarrow> error + (int \<times> int) list" where
  "getRoot_levels poseidonInstance t =
     foldE (\<lambda>currentLevel level.
              rootNextLevel poseidonInstance (defaultHashes t ! level) currentLevel)
           [0..<TREE_DEPTH] (copyMap (leaves t))"

definition getRoot :: "Poseidon option \<Rightarrow> SparseMerkleTree \<Rightarrow> error + int" where
  "getRoot poseidonInstance t =
     (if length (leaves t) = 0 then Inr (defaultHashes t ! TREE_DEPTH)
      else
        (case getRoot_levels poseidonInstance t of
           Inl e \<Rightarrow> Inl e
         | Inr currentLevel \<Rightarrow>
             Inr (case map_of currentLevel 0 of
                    Some r \<Rightarrow> r
                  | None \<Rightarrow> defaultHashes t ! TREE_DEPTH)))"

text \<open>The position of the queried leaf's ancestor at a level, rebuilt from the path bits.\<close>

definition posAtLevel :: "bool list \<Rightarrow> nat \<Rightarrow> int" where
  "posAtLevel pathBits level =
     foldl (\<lambda>pos i. if pathBits ! i then pos OR push_bit (i - level) 1 else pos)
           0 [level..<TREE_DEPTH]"

text \<open>
  One pass of the inner loop of \<open>getMerkleProof\<close>; \<open>processedParents\<close> is the set of
  parent keys already written.
\<close>

definition proofNextLevel ::
  "Poseidon option \<Rightarrow> int \<Rightarrow> (int \<times> int) list \<Rightarrow> error + (int \<times> int) list" where
  "proofNextLevel poseidonInstance dflt currentLevel =
     (case foldE (\<lambda>(nextLevel, processedParents) (idx, value).
                    let parentIdx = drop_bit 1 idx in
                    if parentIdx \<in> set processedParents then Inr (nextLevel, processedParents)
                    else
                      let isRightChild = (idx AND 1 = 1);
                          sibIdx = (if isRightChild then idx - 1 else idx + 1);
                          sib = (case map_of currentLevel sibIdx of Some s \<Rightarrow> s | None \<Rightarrow> dflt);
                          (left, right) = (if isRightChild then (sib, value) else (value, sib))
                      in (case poseidonHash2 poseidonInstance left right of
                            Inl e \<Rightarrow> Inl e
                          | Inr parentValue \<Rightarrow>
                              Inr (AList.update parentIdx parentValue nextLevel,
                                   parentIdx # processedParents)))
                 currentLevel ([], []) of
        Inl e \<Rightarrow> Inl e
      | Inr (nextLevel, processedParents) \<Rightarrow> Inr nextLevel)"

text \<open>The result object \<open>{ siblings, leafValue }\<close> is the pair \<open>(siblings, leafValue)\<close>.\<close>

definition getMerkleProof ::
  "Poseidon option \<Rightarrow> int list \<Rightarrow> SparseMerkleTree \<Rightarrow> error + (int list \<times> int)" where
  "getMerkleProof poseidonInstance pubkey t =
     (case pubkeyToIndex poseidonInstance pubkey of
        Inl e \<Rightarrow> Inl e
      | Inr index \<Rightarrow>
          let pathBits = getPathBits index;
              leafValue = (case map_of (leaves t) index of Some v \<Rightarrow> v | None \<Rightarrow> 0)
          in (case foldE (\<lambda>(currentLevel, siblings) level.
                            let pos = posAtLevel pathBits level;
                                isRight = pathBits ! level;
                                siblingPos = (if isRight then pos - 1 else pos + 1);
                                sibling = (case map_of currentLevel siblingPos of
                                             Some s \<Rightarrow> s
                                           | None \<Rightarrow> defaultHashes t ! level)
                            in (case proofNextLevel poseidonInstance (defaultHashes t ! level)
                                       currentLevel of
                                  Inl e \<Rightarrow> Inl e
                                | Inr nextLevel \<Rightarrow> Inr (nextLevel, siblings @ [sibling])))
                         [0..<TREE_DEPTH] (copyMap (leaves t), []) of
                Inl e \<Rightarrow> Inl e
              | Inr (currentLevel, siblings) \<Rightarrow> Inr (siblings, leafValue)))"

definition getEmptyRoot :: "SparseMerkleTree \<Rightarrow> int" where
  "getEmptyRoot t = defaultHashes t ! TREE_DEPTH"

subsection \<open>Method calls on an object\<close>

text \<open>
  A call of a public method, what it returns, and the object afterwards. Only \<open>insert\<close>
  assigns to a field of the object, and it throws before it assigns; the other methods
  read \<open>leaves\<close> and \<open>defaultHashes\<close> and write to maps of their own.
\<close>

datatype call =
    Insert "int list" "int option"
  | Get "int list"
  | IsBlacklisted "int list"
  | GetRoot
  | GetMerkleProof "int list"
  | GetEmptyRoot

datatype retval = Void | Field int | Flag bool | Proof "int list" int

fun exec :: "Poseidon option \<Rightarrow> call \<Rightarrow> SparseMerkleTree \<Rightarrow> (error + retval) \<times> SparseMerkleTree" where
  "exec poseidonInstance (Insert pubkey None) t =
     (case insert_default poseidonInstance pubkey t of
        Inl e \<Rightarrow> (Inl e, t)
      | Inr t' \<Rightarrow> (Inr Void, t'))"
| "exec poseidonInstance (Insert pubkey (Some value)) t =
     (case insert_smt poseidonInstance pubkey value t of
        Inl e \<Rightarrow> (Inl e, t)
      | Inr t' \<Rightarrow> (Inr Void, t'))"
| "exec poseidonInstance (Get pubkey) t =
     (case get poseidonInstance pubkey t of
        Inl e \<Rightarrow> (Inl e, t)
      | Inr v \<Rightarrow> (Inr (Field v), t))"
| "exec poseidonInstance (IsBlacklisted pubkey) t =
     (case isBlacklisted poseidonInstance pubkey t of
        Inl e \<Rightarrow> (Inl e, t)
      | Inr b \<Rightarrow> (Inr (Flag b), t))"
| "exec poseidonInstance GetRoot t =
     (case getRoot poseidonInstance t of
        Inl e \<Rightarrow> (Inl e, t)
      | Inr r \<Rightarrow> (Inr (Field r), t))"
| "exec poseidonInstance (GetMerkleProof pubkey) t =
     (case getMerkleProof poseidonInstance pubkey t of
        Inl e \<Rightarrow> (Inl e, t)
      | Inr (siblings, leafValue) \<Rightarrow> (Inr (Proof siblings leafValue), t))"
| "exec poseidonInstance GetEmptyRoot t = (Inr (Field (getEmptyRoot t)), t)"

text \<open>The object after a sequence of calls, whatever each of them returned or threw.\<close>

fun execAll :: "Poseidon option \<Rightarrow> call list \<Rightarrow> SparseMerkleTree \<Rightarrow> SparseMerkleTree" where
  "execAll poseidonInstance [] t = t"
| "execAll poseidonInstance (c # cs) t = execAll poseidonInstance cs (snd (exec poseidonInstance c t))"

subsection \<open>The module as a whole\<close>

text \<open>
  The state of the running module: the variable \<open>poseidonInstance\<close>, which starts as
  \<open>null\<close>, and the objects of the class built so far. \<open>initPoseidon\<close> is the only
  assignment to the variable, and it assigns only while the variable is \<open>null\<close>; its
  argument is what \<open>await buildPoseidon()\<close> delivers.
\<close>

record world =
  poseidonInstanceVar :: "Poseidon option"
  objects :: "SparseMerkleTree list"

definition initWorld :: world where
  "initWorld = \<lparr>poseidonInstanceVar = None, objects = []\<rparr>"

definition initPoseidon :: "Poseidon \<Rightarrow> world \<Rightarrow> world" where
  "initPoseidon built w =
     (case poseidonInstanceVar w of
        None \<Rightarrow> w\<lparr>poseidonInstanceVar := Some built\<rparr>
      | Some p \<Rightarrow> w)"

text \<open>
  What a program can do with the module: initialise the hasher, build an object, or call
  a method on an object it holds (the object's position in \<open>objects\<close> is the reference).
  A call on a reference that no \<open>new\<close> returned is not a step.
\<close>

datatype action = InitPoseidon Poseidon | New | Method nat call

datatype outcome = Ready | Made nat | Gave retval | Threw error

fun step :: "world \<Rightarrow> action \<Rightarrow> (outcome \<times> world) option" where
  "step w (InitPoseidon built) = Some (Ready, initPoseidon built w)"
| "step w New =
     (case SparseMerkleTree_constructor (poseidonInstanceVar w) of
        Inl e \<Rightarrow> Some (Threw e, w)
      | Inr t \<Rightarrow> Some (Made (length (objects w)), w\<lparr>objects := objects w @ [t]\<rparr>))"
| "step w (Method i c) =
     (if i < length (objects w) then
        (case exec (poseidonInstanceVar w) c (objects w ! i) of
           (Inl e, t') \<Rightarrow> Some (Threw e, w\<lparr>objects := (objects w)[i := t']\<rparr>)
         | (Inr r, t') \<Rightarrow> Some (Gave r, w\<lparr>objects := (objects w)[i := t']\<rparr>))
      else None)"

text \<open>The state after a sequence of steps, each possible where it is taken.\<close>

fun run :: "action list \<Rightarrow> world \<Rightarrow> world option" where
  "run [] w = Some w"
| "run (a # as) w = (case step w a of None \<Rightarrow> None | Some (out, w') \<Rightarrow> run as w')"

text \<open>While the variable is unset there is no object.\<close>

definition noObjectBeforeInit :: "world \<Rightarrow> bool" where
  "noObjectBeforeInit w \<longleftrightarrow> (poseidonInstanceVar w = None \<longrightarrow> objects w = [])"

subsection \<open>The tree the walks compute, level by level\<close>

text \<open>
  The value of a node at some level: the entry of that level's map, or the default
  hash of the level when the map has none.
\<close>

definition nodeOr :: "(int \<rightharpoonup> int) \<Rightarrow> int \<Rightarrow> int \<Rightarrow> int" where
  "nodeOr m d i = (case m i of Some v \<Rightarrow> v | None \<Rightarrow> d)"

text \<open>A parent exists above a level exactly where a child exists; its value hashes
  the left child's value with the right child's.\<close>

definition levelUp :: "Poseidon \<Rightarrow> int \<Rightarrow> (int \<rightharpoonup> int) \<Rightarrow> (int \<rightharpoonup> int)" where
  "levelUp h d m =
     (\<lambda>p. if m (2 * p) = None \<and> m (2 * p + 1) = None then None
          else Some (h (nodeOr m d (2 * p)) (nodeOr m d (2 * p + 1))))"

fun levelMap :: "Poseidon \<Rightarrow> int list \<Rightarrow> (int \<rightharpoonup> int) \<Rightarrow> nat \<Rightarrow> (int \<rightharpoonup> int)" where
  "levelMap h D m 0 = m"
| "levelMap h D m (Suc n) = levelUp h (D ! n) (levelMap h D m n)"

text \<open>
  The verifier's recomputation, in the words of the specification: from the leaf value
  upward, at level \<open>i\<close> the current value is the left argument when bit \<open>i\<close> of the leaf
  index is 0 and the right argument when it is 1.
\<close>

definition foldSiblings :: "Poseidon \<Rightarrow> int \<Rightarrow> int \<Rightarrow> int list \<Rightarrow> int" where
  "foldSiblings h index leafValue siblings =
     foldl (\<lambda>current i. if bit index i then h (siblings ! i) current
                         else h current (siblings ! i))
           leafValue [0..<TREE_DEPTH]"

text \<open>
  What every object built by the constructor under hasher \<open>h\<close> and changed by \<open>insert\<close>
  satisfies: the ladder of default hashes has \<open>TREE_DEPTH + 1\<close> entries, starts at 0 and
  doubles upward, and the leaf map has each key once (it is a \<open>Map\<close>).
\<close>

definition isLadder :: "Poseidon \<Rightarrow> int list \<Rightarrow> bool" where
  "isLadder h D \<longleftrightarrow>
     length D = TREE_DEPTH + 1 \<and> D ! 0 = 0 \<and>
     (\<forall>i \<in> {1..TREE_DEPTH}. D ! i = h (D ! (i - 1)) (D ! (i - 1)))"

definition wellFormed :: "Poseidon \<Rightarrow> SparseMerkleTree \<Rightarrow> bool" where
  "wellFormed h t \<longleftrightarrow> isLadder h (defaultHashes t) \<and> distinct (map fst (leaves t))"

text \<open>The ladder the constructor's loop builds in \<open>n\<close> rounds.\<close>

fun ladder :: "Poseidon \<Rightarrow> nat \<Rightarrow> int list" where
  "ladder h 0 = [0]"
| "ladder h (Suc n) = (let dh = ladder h n in dh @ [h (dh ! n) (dh ! n)])"

text \<open>The parent entry one child gives rise to, as both walks compute it.\<close>

definition parentEntry :: "Poseidon \<Rightarrow> int \<Rightarrow> (int \<times> int) list \<Rightarrow> int \<times> int \<Rightarrow> int \<times> int" where
  "parentEntry h d cur e =
     (drop_bit 1 (fst e),
      (if fst e AND 1 = 1
       then h (case map_of cur (fst e - 1) of Some s \<Rightarrow> s | None \<Rightarrow> d) (snd e)
       else h (snd e) (case map_of cur (fst e + 1) of Some s \<Rightarrow> s | None \<Rightarrow> d)))"

definition parentHash :: "Poseidon \<Rightarrow> int \<Rightarrow> (int \<rightharpoonup> int) \<Rightarrow> int \<Rightarrow> int" where
  "parentHash h d m p = h (nodeOr m d (2 * p)) (nodeOr m d (2 * p + 1))"

text \<open>One step of the proof walk's inner loop once the hasher is known to answer.\<close>

definition firstWins ::
  "('e \<Rightarrow> int \<times> int) \<Rightarrow> (int \<times> int) list \<times> int list \<Rightarrow> 'e \<Rightarrow> (int \<times> int) list \<times> int list" where
  "firstWins F s e =
     (if fst (F e) \<in> set (snd s) then s
      else (AList.update (fst (F e)) (snd (F e)) (fst s), fst (F e) # snd s))"

text \<open>The sibling the proof walk records at a level.\<close>

definition siblingOf :: "Poseidon \<Rightarrow> int list \<Rightarrow> (int \<rightharpoonup> int) \<Rightarrow> int \<Rightarrow> nat \<Rightarrow> int" where
  "siblingOf h D m index level =
     (let pos = take_bit (TREE_DEPTH - level) (drop_bit level index)
      in nodeOr (levelMap h D m level) (D ! level) (if bit index level then pos - 1 else pos + 1))"

text \<open>A small stand-in for the hasher, with values below \<open>2 ^ 254\<close> and an order-sensitive
  result, and three sample keys, used to instantiate the theorems.\<close>

definition demoHash :: Poseidon where
  "demoHash a b = (3 * a + 5 * b + 1) mod 2 ^ 254"

definition demoTree :: SparseMerkleTree where
  "demoTree = \<lparr>leaves = [], defaultHashes = ladder demoHash TREE_DEPTH\<rparr>"

definition keyA :: "int list" where
  "keyA = replicate 32 0"

definition keyB :: "int list" where
  "keyB = replicate 32 255"

definition keyC :: "int list" where
  "keyC = replicate 32 66"

text \<open>Two keys whose leaves are the two children of one parent (indices 10 and 11).\<close>

definition keyL :: "int list" where
  "keyL = 3 # replicate 31 0"

definition keyR :: "int list" where
  "keyR = replicate 16 0 @ 2 # replicate 15 0"

definition treeLR :: SparseMerkleTree where
  "treeLR = execAll (Some demoHash) [Insert keyL None, Insert keyR None] demoTree"

definition treeRL :: SparseMerkleTree where
  "treeRL = execAll (Some demoHash) [Insert keyR None, Insert keyL None] demoTree"

section \<open>Lemmas\<close>

subsection \<open>Map keys stand for their indices\<close>

lemma below_10: "(d::nat) < 10 \<Longrightarrow> d \<in> {0, 1, 2, 3, 4, 5, 6, 7, 8, 9}"
  by (simp, arith)

lemma decDigit_value: "d < 10 \<Longrightarrow> of_char (decDigit d) - 48 = d"
  by (drule below_10) (auto simp: decDigit_def)

lemma decDigit_not_minus: "d < 10 \<Longrightarrow> decDigit d \<noteq> CHR ''-''"
  by (drule below_10) (auto simp: decDigit_def)

lemma decValue_snoc: "decValue (s @ [c]) = 10 * decValue s + (of_char c - 48)"
  by (simp add: decValue_def)

lemma natToDec_value: "decValue (natToDec n) = n"
proof (induction n rule: natToDec.induct)
  case (1 n)
  show ?case
  proof (cases "n < 10")
    case True
    then show ?thesis
      by (subst natToDec.simps) (simp add: decValue_def decDigit_value)
  next
    case False
    then have "decValue (natToDec (n div 10)) = n div 10" using 1 by simp
    then show ?thesis
      using False by (subst natToDec.simps) (simp add: decValue_snoc decDigit_value)
  qed
qed

lemma natToDec_head: "\<exists>c cs. natToDec n = c # cs \<and> c \<noteq> CHR ''-''"
proof (induction n rule: natToDec.induct)
  case (1 n)
  show ?case
  proof (cases "n < 10")
    case True
    then show ?thesis
      by (subst natToDec.simps) (simp add: decDigit_not_minus)
  next
    case False
    then obtain c cs where "natToDec (n div 10) = c # cs" "c \<noteq> CHR ''-''"
      using 1 by blast
    then show ?thesis
      using False by (subst natToDec.simps) simp
  qed
qed

lemma BigInt_toString: "BigInt_ofString (toString10 i) = i"
proof (cases "i < 0")
  case True
  then show ?thesis
    by (simp add: toString10_def BigInt_ofString_def natToDec_value)
next
  case False
  obtain c cs where h: "natToDec (nat i) = c # cs" "c \<noteq> CHR ''-''"
    using natToDec_head by blast
  have "decValue (c # cs) = nat i"
    using natToDec_value [of "nat i"] h(1) by simp
  then show ?thesis
    using False h by (simp add: toString10_def BigInt_ofString_def)
qed

lemma toString10_inject: "toString10 i = toString10 j \<longleftrightarrow> i = j"
  using BigInt_toString by metis

subsection \<open>Loops and maps\<close>

lemma foldE_total:
  "(\<And>s x. x \<in> set xs \<Longrightarrow> f s x = Inr (g s x)) \<Longrightarrow> foldE f xs s = Inr (foldl g s xs)"
  by (induction xs arbitrary: s) auto

lemma foldE_append:
  "foldE f (xs @ ys) s = (case foldE f xs s of Inl e \<Rightarrow> Inl e | Inr s' \<Rightarrow> foldE f ys s')"
  by (induction xs arbitrary: s) (auto split: sum.splits)

lemma map_of_foldl_update:
  "map_of (foldl (\<lambda>m e. AList.update (fst (F e)) (snd (F e)) m) acc xs)
     = map_of acc ++ map_of (rev (map F xs))"
  by (induction xs arbitrary: acc) (auto simp: update_conv' map_add_def fun_eq_iff split: option.splits)

lemma distinct_foldl_update:
  "distinct (map fst acc) \<Longrightarrow>
   distinct (map fst (foldl (\<lambda>m e. AList.update (fst (F e)) (snd (F e)) m) acc xs))"
  by (induction xs arbitrary: acc) (auto simp: distinct_update)

lemma map_of_graph:
  "map_of (map (\<lambda>x. (f x, G (f x))) xs) p = (if p \<in> f ` set xs then Some (G p) else None)"
  by (induction xs) auto

lemma and_one_int: "(k::int) AND 1 = 1 \<longleftrightarrow> odd k"
  by (simp add: and_one_eq mod_2_eq_odd)

lemma parentEntry_member:
  assumes "distinct (map fst cur)" "e \<in> set cur"
  shows "parentEntry h d cur e = (fst e div 2, parentHash h d (map_of cur) (fst e div 2))"
proof -
  obtain k v where e: "e = (k, v)" by (cases e)
  have kv: "map_of cur k = Some v" using assms e by simp
  show ?thesis
  proof (cases "odd k")
    case True
    then have "2 * (k div 2) + 1 = k" "2 * (k div 2) = k - 1" by presburger+
    then show ?thesis using True kv
      by (simp add: parentEntry_def parentHash_def nodeOr_def e and_one_int drop_bit_eq_div)
  next
    case False
    then have "2 * (k div 2) + 1 = k + 1" "2 * (k div 2) = k" by presburger+
    then show ?thesis using False kv
      by (simp add: parentEntry_def parentHash_def nodeOr_def e and_one_int drop_bit_eq_div)
  qed
qed

lemma parent_exists:
  "(p::int) \<in> (\<lambda>e. fst e div 2) ` set cur \<longleftrightarrow> \<not> (map_of cur (2 * p) = None \<and> map_of cur (2 * p + 1) = None)"
proof -
  have "p \<in> (\<lambda>e. fst e div 2) ` set cur \<longleftrightarrow> (\<exists>k \<in> fst ` set cur. k div 2 = p)"
    by auto
  also have "\<dots> \<longleftrightarrow> (2 * p \<in> fst ` set cur \<or> 2 * p + 1 \<in> fst ` set cur)"
  proof
    assume "\<exists>k \<in> fst ` set cur. k div 2 = p"
    then obtain k where k: "k \<in> fst ` set cur" "k div 2 = p" by blast
    then have "k = 2 * p \<or> k = 2 * p + 1" by presburger
    then show "2 * p \<in> fst ` set cur \<or> 2 * p + 1 \<in> fst ` set cur" using k(1) by blast
  next
    assume a: "2 * p \<in> fst ` set cur \<or> 2 * p + 1 \<in> fst ` set cur"
    have "(2 * p) div 2 = p" "(2 * p + 1) div 2 = p" by simp_all
    then show "\<exists>k \<in> fst ` set cur. k div 2 = p" using a by blast
  qed
  also have "\<dots> \<longleftrightarrow> \<not> (map_of cur (2 * p) = None \<and> map_of cur (2 * p + 1) = None)"
    by (simp add: map_of_eq_None_iff)
  finally show ?thesis .
qed

lemma map_of_parents:
  assumes "distinct (map fst cur)" "set ys = set cur"
  shows "map_of (map (parentEntry h d cur) ys) = levelUp h d (map_of cur)"
proof
  fix p
  have eq: "map (parentEntry h d cur) ys
         = map (\<lambda>e. (fst e div 2, parentHash h d (map_of cur) (fst e div 2))) ys"
    using assms by (simp add: parentEntry_member)
  have "map_of (map (parentEntry h d cur) ys) p
     = (if p \<in> (\<lambda>e. fst e div 2) ` set ys then Some (parentHash h d (map_of cur) p) else None)"
    unfolding eq by (rule map_of_graph)
  then show "map_of (map (parentEntry h d cur) ys) p = levelUp h d (map_of cur) p"
    using parent_exists [of p cur] assms(2) by (simp add: levelUp_def parentHash_def)
qed


lemma rootNextLevel_Some:
  "rootNextLevel (Some h) d cur
     = Inr (foldl (\<lambda>m e. AList.update (fst (parentEntry h d cur e)) (snd (parentEntry h d cur e)) m) [] cur)"
  unfolding rootNextLevel_def
  by (rule foldE_total)
     (simp add: poseidonHash2_def getPoseidon_def Let_def parentEntry_def split: prod.splits)

lemma rootNextLevel_map_of:
  assumes "distinct (map fst cur)"
  shows "\<exists>next. rootNextLevel (Some h) d cur = Inr next \<and> distinct (map fst next)
           \<and> map_of next = levelUp h d (map_of cur)"
proof -
  let ?next = "foldl (\<lambda>m e. AList.update (fst (parentEntry h d cur e)) (snd (parentEntry h d cur e)) m) [] cur"
  have "map_of ?next = map_of (map (parentEntry h d cur) (rev cur))"
    by (simp add: map_of_foldl_update rev_map)
  also have "\<dots> = levelUp h d (map_of cur)"
    using assms by (intro map_of_parents) simp_all
  finally have "map_of ?next = levelUp h d (map_of cur)" .
  moreover have "distinct (map fst ?next)"
    by (rule distinct_foldl_update) simp
  ultimately show ?thesis
    using rootNextLevel_Some by blast
qed

lemma firstWins_foldl:
  assumes "set pp = fst ` set nl" "distinct (map fst nl)"
  shows "map_of (fst (foldl (firstWins F) (nl, pp) xs)) = map_of (map F xs) ++ map_of nl
         \<and> distinct (map fst (fst (foldl (firstWins F) (nl, pp) xs)))"
  using assms
proof (induction xs arbitrary: nl pp)
  case Nil
  then show ?case by simp
next
  case (Cons e xs)
  show ?case
  proof (cases "fst (F e) \<in> set pp")
    case True
    then have dom: "fst (F e) \<in> dom (map_of nl)"
      using Cons.prems(1) by (simp add: dom_map_of_conv_image_fst)
    have step: "firstWins F (nl, pp) e = (nl, pp)"
      using True by (simp add: firstWins_def)
    have eq: "map_of (map F (e # xs)) ++ map_of nl = map_of (map F xs) ++ map_of nl"
      using dom by (cases "F e") (auto simp: map_add_def fun_eq_iff split: option.splits)
    have fl: "foldl (firstWins F) (nl, pp) (e # xs) = foldl (firstWins F) (nl, pp) xs"
      using step by simp
    show ?thesis
      unfolding fl eq by (rule Cons.IH [OF Cons.prems])
  next
    case False
    then have ndom: "fst (F e) \<notin> dom (map_of nl)"
      using Cons.prems(1) by (simp add: dom_map_of_conv_image_fst)
    let ?nl = "AList.update (fst (F e)) (snd (F e)) nl"
    have step: "firstWins F (nl, pp) e = (?nl, fst (F e) # pp)"
      using False by (simp add: firstWins_def)
    have p1: "set (fst (F e) # pp) = fst ` set ?nl"
      using Cons.prems(1) dom_update [of "fst (F e)" "snd (F e)" nl]
      by (simp add: dom_map_of_conv_image_fst [symmetric] del: dom_update)
    have p2: "distinct (map fst ?nl)"
      using Cons.prems(2) by (simp add: distinct_update)
    have eq: "map_of (map F (e # xs)) ++ map_of nl = map_of (map F xs) ++ map_of ?nl"
      using ndom by (cases "F e") (auto simp: update_conv' map_add_def fun_eq_iff domIff split: option.splits)
    have fl: "foldl (firstWins F) (nl, pp) (e # xs) = foldl (firstWins F) (?nl, fst (F e) # pp) xs"
      using step by simp
    show ?thesis
      unfolding fl eq by (rule Cons.IH [OF p1 p2])
  qed
qed

lemma proofNextLevel_Some:
  "proofNextLevel (Some h) d cur
     = Inr (fst (foldl (firstWins (parentEntry h d cur)) ([], []) cur))"
proof -
  have "foldE (\<lambda>(nextLevel, processedParents) (idx, value).
                    let parentIdx = drop_bit 1 idx in
                    if parentIdx \<in> set processedParents then Inr (nextLevel, processedParents)
                    else
                      let isRightChild = (idx AND 1 = 1);
                          sibIdx = (if isRightChild then idx - 1 else idx + 1);
                          sib = (case map_of cur sibIdx of Some s \<Rightarrow> s | None \<Rightarrow> d);
                          (left, right) = (if isRightChild then (sib, value) else (value, sib))
                      in (case poseidonHash2 (Some h) left right of
                            Inl e \<Rightarrow> Inl e
                          | Inr parentValue \<Rightarrow>
                              Inr (AList.update parentIdx parentValue nextLevel,
                                   parentIdx # processedParents)))
                 cur ([], []) = Inr (foldl (firstWins (parentEntry h d cur)) ([], []) cur)"
    by (rule foldE_total)
       (simp add: poseidonHash2_def getPoseidon_def Let_def parentEntry_def firstWins_def split: prod.splits)
  then show ?thesis
    unfolding proofNextLevel_def by (simp split: prod.splits)
qed

lemma proofNextLevel_map_of:
  assumes "distinct (map fst cur)"
  shows "\<exists>next. proofNextLevel (Some h) d cur = Inr next \<and> distinct (map fst next)
           \<and> map_of next = levelUp h d (map_of cur)"
proof -
  let ?next = "fst (foldl (firstWins (parentEntry h d cur)) ([], []) cur)"
  have fw: "map_of ?next = map_of (map (parentEntry h d cur) cur) ++ map_of []
         \<and> distinct (map fst ?next)"
    by (rule firstWins_foldl) simp_all
  have "map_of (map (parentEntry h d cur) cur) = levelUp h d (map_of cur)"
    using assms by (intro map_of_parents) simp_all
  then have "map_of ?next = levelUp h d (map_of cur)"
    using fw by simp
  then show ?thesis
    using fw proofNextLevel_Some by blast
qed


lemma update_fresh:
  "k \<notin> fst ` set al \<Longrightarrow> AList.update k v al = al @ [(k, v)]"
  by (induction al) auto

lemma copy_prefix:
  "distinct (map fst (acc @ m)) \<Longrightarrow>
   foldl (\<lambda>currentLevel (indexStr, value). AList.update indexStr value currentLevel) acc m = acc @ m"
proof (induction m arbitrary: acc)
  case Nil
  then show ?case by simp
next
  case (Cons e m)
  obtain k v where e: "e = (k, v)" by (cases e)
  have "k \<notin> fst ` set acc" using Cons.prems e by auto
  then have "AList.update k v acc = acc @ [(k, v)]" by (rule update_fresh)
  moreover have "distinct (map fst ((acc @ [(k, v)]) @ m))" using Cons.prems e by simp
  ultimately show ?case using Cons.IH [of "acc @ [(k, v)]"] e by simp
qed

lemma copyMap_distinct: "distinct (map fst m) \<Longrightarrow> copyMap m = m"
  using copy_prefix [of "[]" m] by (simp add: copyMap_def)

lemma levelUp_empty: "levelUp h d Map.empty = Map.empty"
  by (simp add: levelUp_def fun_eq_iff)

lemma levelMap_empty: "levelMap h D Map.empty n = Map.empty"
  by (induction n) (simp_all add: levelUp_empty)

lemma rootLevels:
  assumes "distinct (map fst cur0)"
  shows "\<exists>cur. foldE (\<lambda>currentLevel level. rootNextLevel (Some h) (D ! level) currentLevel)
                   [0..<n] cur0 = Inr cur
               \<and> distinct (map fst cur) \<and> map_of cur = levelMap h D (map_of cur0) n"
proof (induction n)
  case 0
  then show ?case using assms by simp
next
  case (Suc n)
  then obtain cur where cur:
    "foldE (\<lambda>currentLevel level. rootNextLevel (Some h) (D ! level) currentLevel) [0..<n] cur0 = Inr cur"
    "distinct (map fst cur)" "map_of cur = levelMap h D (map_of cur0) n"
    by blast
  obtain nxt where nxt: "rootNextLevel (Some h) (D ! n) cur = Inr nxt"
    "distinct (map fst nxt)" "map_of nxt = levelUp h (D ! n) (map_of cur)"
    using rootNextLevel_map_of [OF cur(2)] by blast
  show ?case
    using cur nxt by (simp add: foldE_append)
qed

lemma getRoot_levels_Some:
  assumes "distinct (map fst (leaves t))"
  shows "\<exists>cur. getRoot_levels (Some h) t = Inr cur \<and> distinct (map fst cur)
           \<and> map_of cur = levelMap h (defaultHashes t) (map_of (leaves t)) TREE_DEPTH"
  unfolding getRoot_levels_def copyMap_distinct [OF assms]
  by (rule rootLevels [OF assms])

lemma getRoot_Some:
  assumes "distinct (map fst (leaves t))"
  shows "getRoot (Some h) t
     = Inr (nodeOr (levelMap h (defaultHashes t) (map_of (leaves t)) TREE_DEPTH)
                   (defaultHashes t ! TREE_DEPTH) 0)"
proof (cases "leaves t = []")
  case True
  then show ?thesis
    by (simp add: getRoot_def levelMap_empty nodeOr_def)
next
  case False
  obtain cur where cur: "getRoot_levels (Some h) t = Inr cur"
    "map_of cur = levelMap h (defaultHashes t) (map_of (leaves t)) TREE_DEPTH"
    using getRoot_levels_Some [OF assms] by blast
  show ?thesis
    using False cur by (simp add: getRoot_def nodeOr_def)
qed

lemma getPathBits_loop_bits:
  "getPathBits_loop n i val bits = bits @ map (bit val) [0..<n]"
proof (induction n arbitrary: i val bits)
  case 0
  then show ?case by simp
next
  case (Suc n)
  have "map (bit val) [0..<Suc n] = bit val 0 # map (\<lambda>k. bit val (Suc k)) [0..<n]"
    by (rule map_upt_Suc)
  moreover have "(val AND 1 = 1) = bit val 0"
    by (simp add: and_one_int bit_0)
  moreover have "map (bit (drop_bit 1 val)) [0..<n] = map (\<lambda>k. bit val (Suc k)) [0..<n]"
    by (simp add: bit_drop_bit_eq)
  ultimately show ?case
    using Suc.IH [of "i + 1" "drop_bit 1 val" "bits @ [val AND 1 = 1]"] by simp
qed

lemma getPathBits_bits: "getPathBits index = map (bit index) [0..<TREE_DEPTH]"
  by (simp add: getPathBits_def getPathBits_loop_bits)

lemma posFold:
  "level \<le> n \<Longrightarrow>
   foldl (\<lambda>pos i. if bit index i then pos OR push_bit (i - level) 1 else pos) (0::int) [level..<n]
     = take_bit (n - level) (drop_bit level index)"
proof (induction n)
  case 0
  then show ?case by simp
next
  case (Suc n)
  show ?case
  proof (cases "level = Suc n")
    case True
    then show ?thesis by simp
  next
    case False
    then have le: "level \<le> n" using Suc.prems by simp
    have IH: "foldl (\<lambda>pos i. if bit index i then pos OR push_bit (i - level) 1 else pos) (0::int) [level..<n]
        = take_bit (n - level) (drop_bit level index)"
      using Suc.IH le by simp
    have "(if bit index n then take_bit (n - level) (drop_bit level index) OR push_bit (n - level) 1
           else take_bit (n - level) (drop_bit level index))
          = take_bit (Suc n - level) (drop_bit level index)"
      using le
      by (intro bit_eqI) (auto simp: bit_simps Suc_diff_le less_Suc_eq)
    then show ?thesis
      using le IH by simp
  qed
qed

lemma posAtLevel_eq:
  assumes "level \<le> TREE_DEPTH"
  shows "posAtLevel (getPathBits index) level = take_bit (TREE_DEPTH - level) (drop_bit level index)"
proof -
  have "foldl (\<lambda>pos i. if getPathBits index ! i then pos OR push_bit (i - level) 1 else pos) (0::int) [level..<TREE_DEPTH]
      = foldl (\<lambda>pos i. if bit index i then pos OR push_bit (i - level) 1 else pos) (0::int) [level..<TREE_DEPTH]"
    by (rule foldl_cong) (simp_all add: getPathBits_bits)
  then show ?thesis
    using posFold [OF assms] by (simp add: posAtLevel_def)
qed


lemma proofLevels:
  assumes "distinct (map fst cur0)" "n \<le> TREE_DEPTH"
  shows "\<exists>cur. foldE (\<lambda>(currentLevel, siblings) level.
                            let pos = posAtLevel (getPathBits index) level;
                                isRight = getPathBits index ! level;
                                siblingPos = (if isRight then pos - 1 else pos + 1);
                                sibling = (case map_of currentLevel siblingPos of
                                             Some s \<Rightarrow> s
                                           | None \<Rightarrow> D ! level)
                            in (case proofNextLevel (Some h) (D ! level) currentLevel of
                                  Inl e \<Rightarrow> Inl e
                                | Inr nextLevel \<Rightarrow> Inr (nextLevel, siblings @ [sibling])))
                   [0..<n] (cur0, sibs)
                 = Inr (cur, sibs @ map (siblingOf h D (map_of cur0) index) [0..<n])
               \<and> distinct (map fst cur) \<and> map_of cur = levelMap h D (map_of cur0) n"
  using assms(2)
proof (induction n)
  case 0
  then show ?case using assms(1) by simp
next
  case (Suc n)
  let ?body = "\<lambda>(currentLevel, siblings) level.
                            let pos = posAtLevel (getPathBits index) level;
                                isRight = getPathBits index ! level;
                                siblingPos = (if isRight then pos - 1 else pos + 1);
                                sibling = (case map_of currentLevel siblingPos of
                                             Some s \<Rightarrow> s
                                           | None \<Rightarrow> D ! level)
                            in (case proofNextLevel (Some h) (D ! level) currentLevel of
                                  Inl e \<Rightarrow> Inl e
                                | Inr nextLevel \<Rightarrow> Inr (nextLevel, siblings @ [sibling]))"
  from Suc have n: "n < TREE_DEPTH" by simp
  from Suc obtain cur where cur:
    "foldE ?body [0..<n] (cur0, sibs) = Inr (cur, sibs @ map (siblingOf h D (map_of cur0) index) [0..<n])"
    "distinct (map fst cur)" "map_of cur = levelMap h D (map_of cur0) n"
    by auto
  obtain nxt where nxt: "proofNextLevel (Some h) (D ! n) cur = Inr nxt"
    "distinct (map fst nxt)" "map_of nxt = levelUp h (D ! n) (map_of cur)"
    using proofNextLevel_map_of [OF cur(2)] by blast
  have bit: "getPathBits index ! n = bit index n"
    using n by (simp add: getPathBits_bits)
  have pos: "posAtLevel (getPathBits index) n = take_bit (TREE_DEPTH - n) (drop_bit n index)"
    using n by (simp add: posAtLevel_eq)
  have step: "?body (cur, sibs @ map (siblingOf h D (map_of cur0) index) [0..<n]) n
     = Inr (nxt, sibs @ map (siblingOf h D (map_of cur0) index) [0..<Suc n])"
    using nxt(1) cur(3) by (simp add: bit pos siblingOf_def nodeOr_def Let_def)
  have "foldE ?body [0..<Suc n] (cur0, sibs)
        = Inr (nxt, sibs @ map (siblingOf h D (map_of cur0) index) [0..<Suc n])"
    using cur(1) step by (simp add: foldE_append del: map_append)
  then show ?case
    using nxt(2,3) cur(3) by simp
qed

lemma getMerkleProof_Some:
  assumes "distinct (map fst (leaves t))" "pubkeyToIndex (Some h) pubkey = Inr index"
  shows "getMerkleProof (Some h) pubkey t
     = Inr (map (siblingOf h (defaultHashes t) (map_of (leaves t)) index) [0..<TREE_DEPTH],
            nodeOr (map_of (leaves t)) 0 index)"
proof -
  obtain cur where
    "foldE (\<lambda>(currentLevel, siblings) level.
                            let pos = posAtLevel (getPathBits index) level;
                                isRight = getPathBits index ! level;
                                siblingPos = (if isRight then pos - 1 else pos + 1);
                                sibling = (case map_of currentLevel siblingPos of
                                             Some s \<Rightarrow> s
                                           | None \<Rightarrow> defaultHashes t ! level)
                            in (case proofNextLevel (Some h) (defaultHashes t ! level) currentLevel of
                                  Inl e \<Rightarrow> Inl e
                                | Inr nextLevel \<Rightarrow> Inr (nextLevel, siblings @ [sibling])))
                   [0..<TREE_DEPTH] (leaves t, [])
                 = Inr (cur, [] @ map (siblingOf h (defaultHashes t) (map_of (leaves t)) index) [0..<TREE_DEPTH])"
    using proofLevels [OF assms(1) order_refl, of index "defaultHashes t" h "[]"] by blast
  then show ?thesis
    using assms(2) by (simp add: getMerkleProof_def Let_def copyMap_distinct [OF assms(1)] nodeOr_def)
qed

lemma nodeOr_levelUp:
  "d' = h d d \<Longrightarrow> nodeOr (levelUp h d M) d' p = h (nodeOr M d (2 * p)) (nodeOr M d (2 * p + 1))"
  by (simp add: nodeOr_def levelUp_def)

lemma pathFold:
  assumes ladder: "\<And>i. i < n \<Longrightarrow> D ! Suc i = h (D ! i) (D ! i)"
    and n: "n \<le> TREE_DEPTH"
    and sibs: "\<And>i. i < n \<Longrightarrow> siblings ! i = siblingOf h D m index i"
    and range: "0 \<le> index" "index < 2 ^ TREE_DEPTH"
  shows "foldl (\<lambda>current i. if bit index i then h (siblings ! i) current
                         else h current (siblings ! i))
           (nodeOr m (D ! 0) index) [0..<n]
         = nodeOr (levelMap h D m n) (D ! n) (drop_bit n index)"
  using ladder n sibs
proof (induction n)
  case 0
  then show ?case by simp
next
  case (Suc n)
  let ?p = "drop_bit n index"
  let ?M = "levelMap h D m n"
  have IH: "foldl (\<lambda>current i. if bit index i then h (siblings ! i) current
                         else h current (siblings ! i))
           (nodeOr m (D ! 0) index) [0..<n] = nodeOr ?M (D ! n) ?p"
    using Suc by simp
  have tb: "take_bit TREE_DEPTH index = index"
    using range by (simp add: take_bit_int_eq_self)
  have "take_bit (TREE_DEPTH - n) (drop_bit n index) = drop_bit n (take_bit TREE_DEPTH index)"
    by (simp add: drop_bit_take_bit)
  then have pos: "take_bit (TREE_DEPTH - n) (drop_bit n index) = ?p"
    using tb by simp
  have sib: "siblings ! n = nodeOr ?M (D ! n) (if bit index n then ?p - 1 else ?p + 1)"
    using Suc.prems(3) [of n] pos by (simp add: siblingOf_def Let_def)
  have odd: "bit index n = odd ?p"
    by (simp add: bit_iff_odd_drop_bit)
  have half: "drop_bit (Suc n) index = ?p div 2"
    by (simp add: drop_bit_Suc drop_bit_half)
  have up: "nodeOr (levelMap h D m (Suc n)) (D ! Suc n) (?p div 2)
        = h (nodeOr ?M (D ! n) (2 * (?p div 2))) (nodeOr ?M (D ! n) (2 * (?p div 2) + 1))"
    using Suc.prems(1) [of n] by (simp add: nodeOr_levelUp)
  show ?case
  proof (cases "odd ?p")
    case True
    then have "2 * (?p div 2) + 1 = ?p" "2 * (?p div 2) = ?p - 1" by presburger+
    then show ?thesis using True IH sib odd up half by simp
  next
    case False
    then have "2 * (?p div 2) + 1 = ?p + 1" "2 * (?p div 2) = ?p" by presburger+
    then show ?thesis using False IH sib odd up half by simp
  qed
qed


subsection \<open>Constructor\<close>

lemma length_ladder: "length (ladder h n) = Suc n"
  by (induction n) (simp_all add: Let_def)

lemma ladder_nth_prefix: "i \<le> n \<Longrightarrow> ladder h (Suc n) ! i = ladder h n ! i"
  by (simp add: nth_append length_ladder Let_def)

lemma ladder_nth_any: "i \<le> n \<Longrightarrow> n \<le> k \<Longrightarrow> ladder h k ! i = ladder h n ! i"
  by (induction k) (auto simp: le_Suc_eq nth_append length_ladder Let_def)

lemma ladder_zero: "ladder h n ! 0 = 0"
  using ladder_nth_any [of 0 0 n h] by simp

lemma ladder_step:
  assumes "i < n"
  shows "ladder h n ! Suc i = h (ladder h n ! i) (ladder h n ! i)"
proof -
  have "ladder h n ! Suc i = ladder h (Suc i) ! Suc i"
    using assms by (intro ladder_nth_any) simp_all
  also have "\<dots> = h (ladder h i ! i) (ladder h i ! i)"
    by (simp add: nth_append length_ladder Let_def)
  also have "ladder h i ! i = ladder h n ! i"
    using assms by (intro ladder_nth_any [symmetric]) simp_all
  finally show ?thesis .
qed

lemma isLadder_ladder: "isLadder h (ladder h TREE_DEPTH)"
proof -
  have "ladder h TREE_DEPTH ! i = h (ladder h TREE_DEPTH ! (i - 1)) (ladder h TREE_DEPTH ! (i - 1))"
    if "i \<in> {1..TREE_DEPTH}" for i
  proof -
    from that obtain j where j: "i = Suc j" "j < TREE_DEPTH"
      by (cases i) auto
    show ?thesis using ladder_step [OF j(2), of h] j(1) by simp
  qed
  then show ?thesis
    by (simp add: isLadder_def length_ladder ladder_zero)
qed

lemma isLadder_unique:
  assumes "isLadder h D"
  shows "D = ladder h TREE_DEPTH"
proof -
  have nth: "i \<le> TREE_DEPTH \<Longrightarrow> D ! i = ladder h TREE_DEPTH ! i" for i
  proof (induction i)
    case 0
    then show ?case using assms by (simp add: isLadder_def ladder_zero)
  next
    case (Suc i)
    then have "D ! Suc i = h (D ! i) (D ! i)"
      using assms by (simp add: isLadder_def)
    then show ?case
      using Suc ladder_step [of i TREE_DEPTH h] by simp
  qed
  show ?thesis
  proof (rule nth_equalityI)
    show "length D = length (ladder h TREE_DEPTH)"
      using assms by (simp add: isLadder_def length_ladder)
  next
    fix i assume "i < length D"
    then show "D ! i = ladder h TREE_DEPTH ! i"
      using assms nth [of i] by (simp add: isLadder_def)
  qed
qed

lemma constructor_loop:
  "foldE (\<lambda>dh i. let prev = dh ! (i - 1) in
               (case poseidonHash2 (Some h) prev prev of
                  Inl e \<Rightarrow> Inl e
                | Inr v \<Rightarrow> Inr (dh @ [v])))
         [1..<n + 1] [0] = Inr (ladder h n)"
proof (induction n)
  case 0
  then show ?case by simp
next
  case (Suc n)
  have "[1..<Suc n + 1] = [1..<n + 1] @ [Suc n]" by simp
  then show ?case
    using Suc by (simp add: foldE_append poseidonHash2_def getPoseidon_def Let_def del: upt_Suc)
qed

lemma constructor_Some:
  "SparseMerkleTree_constructor (Some h) = Inr \<lparr>leaves = [], defaultHashes = ladder h TREE_DEPTH\<rparr>"
  unfolding SparseMerkleTree_constructor_def constructor_loop by simp

lemma constructor_None:
  "SparseMerkleTree_constructor None = Inl PoseidonNotInitialized"
proof -
  have "[1..<TREE_DEPTH + 1] = 1 # [2..<TREE_DEPTH + 1]"
    by (simp add: TREE_DEPTH_def upt_conv_Cons)
  then show ?thesis
    unfolding SparseMerkleTree_constructor_def
    by (simp add: poseidonHash2_def getPoseidon_def del: upt_Suc)
qed

lemma constructor_wellFormed:
  "SparseMerkleTree_constructor (Some h) = Inr t \<Longrightarrow> wellFormed h t"
  by (auto simp: constructor_Some wellFormed_def isLadder_ladder)

subsection \<open>Index derivation\<close>

lemma bytes16_loop_ok:
  assumes "start + 16 \<le> length bytes" "i \<le> 16"
  shows "bytes16ToField_loop bytes start i result multiplier
     = Inr (result + multiplier * le_value (take (16 - i) (drop (start + i) bytes)))"
  using assms
proof (induction bytes start i result multiplier rule: bytes16ToField_loop.induct)
  case (1 bytes start i result multiplier)
  show ?case
  proof (cases "i < 16")
    case False
    then have "i = 16" using "1.prems" by simp
    then show ?thesis
      by (subst bytes16ToField_loop.simps) simp
  next
    case True
    then have lt: "start + i < length bytes" using "1.prems" by simp
    have b: "BigInt_at bytes (start + i) = Inr (bytes ! (start + i))"
      using lt by (simp add: BigInt_at_def)
    have IH: "bytes16ToField_loop bytes start (i + 1) (result + bytes ! (start + i) * multiplier) (multiplier * 256)
       = Inr (result + bytes ! (start + i) * multiplier
               + multiplier * 256 * le_value (take (16 - (i + 1)) (drop (start + (i + 1)) bytes)))"
      using "1.IH" [OF True b] "1.prems" True by simp
    have "take (16 - i) (drop (start + i) bytes)
          = bytes ! (start + i) # take (16 - (i + 1)) (drop (start + (i + 1)) bytes)"
    proof -
      have "16 - i = Suc (16 - (i + 1))" using True by simp
      moreover have "drop (start + i) bytes = bytes ! (start + i) # drop (start + (i + 1)) bytes"
        using lt by (simp add: Cons_nth_drop_Suc)
      ultimately show ?thesis by simp
    qed
    then show ?thesis
      using True b IH
      by (simp add: bytes16ToField_loop.simps [of bytes start i] algebra_simps)
  qed
qed

lemma bytes16_loop_short:
  assumes "length bytes < start + 16" "i < 16" "start + i \<le> length bytes"
  shows "bytes16ToField_loop bytes start i result multiplier = Inl TypeError"
  using assms
proof (induction bytes start i result multiplier rule: bytes16ToField_loop.induct)
  case (1 bytes start i result multiplier)
  show ?case
  proof (cases "start + i < length bytes")
    case False
    then show ?thesis
      using "1.prems" by (simp add: bytes16ToField_loop.simps [of bytes start i] BigInt_at_def)
  next
    case True
    then have b: "BigInt_at bytes (start + i) = Inr (bytes ! (start + i))"
      by (simp add: BigInt_at_def)
    have "i + 1 < 16" using True "1.prems" by simp
    then have "bytes16ToField_loop bytes start (i + 1) (result + bytes ! (start + i) * multiplier) (multiplier * 256)
       = Inl TypeError"
      using "1.IH" [OF "1.prems"(2) b] "1.prems" True by simp
    then show ?thesis
      using "1.prems"(2) b by (simp add: bytes16ToField_loop.simps [of bytes start i])
  qed
qed

lemma bytes16ToField_ok:
  "start + 16 \<le> length bytes \<Longrightarrow>
   bytes16ToField bytes start = Inr (le_value (take 16 (drop start bytes)))"
  using bytes16_loop_ok [of start bytes 0 0 1] by (simp add: bytes16ToField_def)

lemma bytes16ToField_short:
  assumes "length bytes < start + 16"
  shows "bytes16ToField bytes start = Inl TypeError"
proof (cases "start \<le> length bytes")
  case True
  then show ?thesis
    using bytes16_loop_short [of bytes start 0 0 1] assms by (simp add: bytes16ToField_def)
next
  case False
  then show ?thesis
    by (simp add: bytes16ToField_def bytes16ToField_loop.simps [of bytes start 0] BigInt_at_def)
qed

lemma pubkeyToIndex_long:
  assumes "32 \<le> length pubkey"
  shows "pubkeyToIndex poseidonInstance pubkey
     = poseidonHash2 poseidonInstance (le_value (take 16 pubkey)) (le_value (take 16 (drop 16 pubkey)))"
  using assms bytes16ToField_ok [of 0 pubkey] bytes16ToField_ok [of 16 pubkey]
  by (simp add: pubkeyToIndex_def)

lemma pubkeyToIndex_short:
  assumes "length pubkey < 32"
  shows "pubkeyToIndex poseidonInstance pubkey = Inl TypeError"
proof (cases "length pubkey < 16")
  case True
  then show ?thesis
    using bytes16ToField_short [of pubkey 0] by (simp add: pubkeyToIndex_def)
next
  case False
  then show ?thesis
    using assms bytes16ToField_ok [of 0 pubkey] bytes16ToField_short [of pubkey 16]
    by (simp add: pubkeyToIndex_def)
qed

subsection \<open>Hex rendering\<close>

lemma below_16: "(d::nat) < 16 \<Longrightarrow> d \<in> {0, 1, 2, 3, 4, 5, 6, 7, 8, 9, 10, 11, 12, 13, 14, 15}"
  by (simp, arith)

lemma hexDigit_value: "d < 16 \<Longrightarrow> hexDigitValue (hexDigit d) = d"
  by (drule below_16) (auto simp: hexDigit_def hexDigitValue_def)

lemma hexDigit_lower: "d < 16 \<Longrightarrow> hexDigit d \<in> set ''0123456789abcdef''"
  by (drule below_16) (auto simp: hexDigit_def)

lemma hexValue_snoc: "hexValue (s @ [c]) = 16 * hexValue s + hexDigitValue c"
  by (simp add: hexValue_def)

lemma natToHex_value: "hexValue (natToHex n) = n"
proof (induction n rule: natToHex.induct)
  case (1 n)
  show ?case
  proof (cases "n < 16")
    case True
    then show ?thesis
      by (subst natToHex.simps) (simp add: hexValue_def hexDigit_value)
  next
    case False
    then have "hexValue (natToHex (n div 16)) = n div 16" using 1 by simp
    then show ?thesis
      using False by (subst natToHex.simps) (simp add: hexValue_snoc hexDigit_value)
  qed
qed

lemma natToHex_lower: "set (natToHex n) \<subseteq> set ''0123456789abcdef''"
proof (induction n rule: natToHex.induct)
  case (1 n)
  show ?case
  proof (cases "n < 16")
    case True
    then show ?thesis
      using hexDigit_lower [of n] by (subst natToHex.simps) simp
  next
    case False
    then have "set (natToHex (n div 16)) \<subseteq> set ''0123456789abcdef''" using 1 by simp
    moreover have "hexDigit (n mod 16) \<in> set ''0123456789abcdef''"
      by (rule hexDigit_lower) simp
    ultimately show ?thesis
      using False by (subst natToHex.simps) simp
  qed
qed

lemma natToHex_length: "n < 16 ^ k \<Longrightarrow> 0 < k \<Longrightarrow> length (natToHex n) \<le> k"
proof (induction n arbitrary: k rule: natToHex.induct)
  case (1 n)
  show ?case
  proof (cases "n < 16")
    case True
    then show ?thesis
      using "1.prems" by (subst natToHex.simps) simp
  next
    case False
    obtain j where j: "k = Suc j" using "1.prems" by (cases k) auto
    have "j \<noteq> 0" using False "1.prems" j by (cases j) auto
    moreover have "n div 16 < 16 ^ j"
      using "1.prems" j by (simp add: less_mult_imp_div_less mult.commute)
    ultimately have "length (natToHex (n div 16)) \<le> j"
      using "1.IH" [OF False, of j] by simp
    then show ?thesis
      using False j by (subst natToHex.simps) simp
  qed
qed

lemma hexValue_zeros: "hexValue (replicate k (CHR ''0'') @ s) = hexValue s"
proof -
  have "foldl (\<lambda>acc c. 16 * acc + hexDigitValue c) 0 (replicate k (CHR ''0'')) = 0"
    by (induction k) (simp_all add: hexDigitValue_def)
  then show ?thesis by (simp add: hexValue_def)
qed

subsection \<open>Objects reached by method calls\<close>

lemma insert_smt_wellFormed:
  "wellFormed h t \<Longrightarrow> insert_smt p pubkey v t = Inr t' \<Longrightarrow> wellFormed h t'"
  by (auto simp: insert_smt_def wellFormed_def distinct_update split: sum.splits)

lemma exec_wellFormed: "wellFormed h t \<Longrightarrow> wellFormed h (snd (exec p c t))"
proof (cases c)
  case (Insert k vo)
  assume "wellFormed h t"
  then show ?thesis
    using Insert insert_smt_wellFormed [of h t p k]
    by (cases vo) (auto simp: insert_default_def split: sum.splits)
qed (auto split: sum.splits prod.splits)

lemma execAll_wellFormed: "wellFormed h t \<Longrightarrow> wellFormed h (execAll p calls t)"
  by (induction calls arbitrary: t) (simp_all add: exec_wellFormed)

lemma exec_defaultHashes: "defaultHashes (snd (exec p c t)) = defaultHashes t"
proof (cases c)
  case (Insert k vo)
  then show ?thesis
    by (cases vo) (auto simp: insert_default_def insert_smt_def split: sum.splits)
qed (auto split: sum.splits prod.splits)

lemma execAll_defaultHashes: "defaultHashes (execAll p calls t) = defaultHashes t"
  by (induction calls arbitrary: t) (simp_all add: exec_defaultHashes)

lemma exec_absent:
  assumes "index \<notin> fst ` set (leaves t)"
    and "\<And>k v. c = Insert k v \<Longrightarrow> pubkeyToIndex p k \<noteq> Inr index"
  shows "index \<notin> fst ` set (leaves (snd (exec p c t)))"
proof (cases c)
  case (Insert k vo)
  have ne: "pubkeyToIndex p k \<noteq> Inr index" using assms(2) Insert by simp
  have "index \<notin> fst ` set (leaves t')" if "insert_smt p k v t = Inr t'" for v t'
  proof -
    from that obtain i where i: "pubkeyToIndex p k = Inr i" "t' = t\<lparr>leaves := AList.update i v (leaves t)\<rparr>"
      by (auto simp: insert_smt_def split: sum.splits)
    have "fst ` set (leaves t') = insert i (fst ` set (leaves t))"
      using i(2) dom_update [of i v "leaves t"]
      by (simp add: dom_map_of_conv_image_fst [symmetric] del: dom_update)
    then show ?thesis using assms(1) ne i(1) by auto
  qed
  then show ?thesis
    using Insert assms(1) by (cases vo) (auto simp: insert_default_def split: sum.splits)
qed (use assms(1) in \<open>auto split: sum.splits prod.splits\<close>)

lemma execAll_absent:
  assumes "index \<notin> fst ` set (leaves t)"
    and "\<forall>k v. Insert k v \<in> set calls \<longrightarrow> pubkeyToIndex p k \<noteq> Inr index"
  shows "index \<notin> fst ` set (leaves (execAll p calls t))"
  using assms
proof (induction calls arbitrary: t)
  case Nil
  then show ?case by simp
next
  case (Cons c calls)
  have a: "index \<notin> fst ` set (leaves (snd (exec p c t)))"
    using Cons.prems by (intro exec_absent) auto
  have b: "\<forall>k v. Insert k v \<in> set calls \<longrightarrow> pubkeyToIndex p k \<noteq> Inr index"
    using Cons.prems(2) by simp
  show ?case
    using Cons.IH [OF a b] by simp
qed

subsection \<open>Which parents exist\<close>

lemma dom_levelUp: "dom (levelUp h d M) = (\<lambda>k. k div 2) ` dom M"
proof (rule set_eqI)
  fix p :: int
  have "p \<in> (\<lambda>k. k div 2) ` dom M \<longleftrightarrow> (2 * p \<in> dom M \<or> 2 * p + 1 \<in> dom M)"
  proof
    assume "p \<in> (\<lambda>k. k div 2) ` dom M"
    then obtain k where k: "k \<in> dom M" "k div 2 = p" by blast
    then have "k = 2 * p \<or> k = 2 * p + 1" by presburger
    then show "2 * p \<in> dom M \<or> 2 * p + 1 \<in> dom M" using k(1) by blast
  next
    assume a: "2 * p \<in> dom M \<or> 2 * p + 1 \<in> dom M"
    have "(2 * p) div 2 = p" "(2 * p + 1) div 2 = p" by simp_all
    then show "p \<in> (\<lambda>k. k div 2) ` dom M" using a by (metis imageI)
  qed
  then show "p \<in> dom (levelUp h d M) \<longleftrightarrow> p \<in> (\<lambda>k. k div 2) ` dom M"
    by (auto simp: levelUp_def domIff)
qed

lemma dom_levelMap: "dom (levelMap h D m n) = (\<lambda>k. k div 2 ^ n) ` dom m"
proof (induction n)
  case 0
  then show ?case by simp
next
  case (Suc n)
  have "k div 2 ^ n div 2 = k div 2 ^ Suc n" for k :: int
    using zdiv_zmult2_eq [of 2 k "2 ^ n"] by (simp add: mult.commute)
  then have "(\<lambda>k. k div 2) ` (\<lambda>k. k div 2 ^ n) ` dom m = (\<lambda>k. k div 2 ^ Suc n) ` dom m"
    by (simp add: image_image del: power_Suc)
  then show ?case
    using Suc by (simp add: dom_levelUp del: power_Suc)
qed

lemma single_entry:
  assumes "distinct (map fst cur)" "fst ` set cur = {k}"
  shows "\<exists>r. cur = [(k, r)]"
proof (cases cur)
  case Nil
  then show ?thesis using assms(2) by simp
next
  case (Cons e rest)
  have "fst e = k" using assms(2) Cons by auto
  moreover have "rest = []"
  proof (cases rest)
    case (Cons e' rest')
    then have "fst e' = k" using assms(2) \<open>cur = e # rest\<close> by auto
    then show ?thesis using assms(1) \<open>cur = e # rest\<close> Cons \<open>fst e = k\<close> by simp
  qed simp
  ultimately show ?thesis using Cons by (cases e) simp
qed


subsection \<open>Round trip\<close>

lemma isLadder_step: "isLadder h D \<Longrightarrow> i < TREE_DEPTH \<Longrightarrow> D ! Suc i = h (D ! i) (D ! i)"
  by (simp add: isLadder_def)

lemma roundTrip:
  assumes wf: "wellFormed h t"
    and idx: "pubkeyToIndex (Some h) pubkey = Inr index"
    and range: "0 \<le> index" "index < 2 ^ TREE_DEPTH"
  shows "\<exists>siblings.
           getMerkleProof (Some h) pubkey t = Inr (siblings, nodeOr (map_of (leaves t)) 0 index)
         \<and> length siblings = TREE_DEPTH
         \<and> getRoot (Some h) t
             = Inr (foldSiblings h index (nodeOr (map_of (leaves t)) 0 index) siblings)"
proof -
  let ?D = "defaultHashes t"
  let ?m = "map_of (leaves t)"
  let ?sibs = "map (siblingOf h ?D ?m index) [0..<TREE_DEPTH]"
  have dist: "distinct (map fst (leaves t))" and lad: "isLadder h ?D"
    using wf by (simp_all add: wellFormed_def)
  have D0: "?D ! 0 = 0" using lad by (simp add: isLadder_def)
  have top: "drop_bit TREE_DEPTH index = 0"
    using range by (simp add: drop_bit_eq_div)
  have "foldl (\<lambda>current i. if bit index i then h (?sibs ! i) current else h current (?sibs ! i))
              (nodeOr ?m (?D ! 0) index) [0..<TREE_DEPTH]
        = nodeOr (levelMap h ?D ?m TREE_DEPTH) (?D ! TREE_DEPTH) (drop_bit TREE_DEPTH index)"
    using range by (intro pathFold) (simp_all add: isLadder_step [OF lad])
  then have "foldSiblings h index (nodeOr ?m 0 index) ?sibs
        = nodeOr (levelMap h ?D ?m TREE_DEPTH) (?D ! TREE_DEPTH) 0"
    by (simp add: foldSiblings_def D0 top)
  then show ?thesis
    using getMerkleProof_Some [OF dist idx] getRoot_Some [OF dist, of h] by simp
qed

lemma pubkeyToIndex_32:
  "length pubkey = 32 \<Longrightarrow>
   pubkeyToIndex (Some h) pubkey
     = Inr (h (le_value (take 16 pubkey)) (le_value (take 16 (drop 16 pubkey))))"
  by (simp add: pubkeyToIndex_long poseidonHash2_def getPoseidon_def)

subsection \<open>The sample hasher and keys\<close>

lemma demoHash_range: "\<forall>a b. 0 \<le> demoHash a b \<and> demoHash a b < 2 ^ TREE_DEPTH"
  by (simp add: demoHash_def TREE_DEPTH_def)

lemma demoTree_new: "SparseMerkleTree_constructor (Some demoHash) = Inr demoTree"
  by (simp add: constructor_Some demoTree_def)

lemma index_keyA: "pubkeyToIndex (Some demoHash) keyA = Inr 1"
  by code_simp

lemma index_keyB: "pubkeyToIndex (Some demoHash) keyB = Inr 2722258935367507707706996859454145691641"
  by code_simp

lemma index_keyC: "pubkeyToIndex (Some demoHash) keyC = Inr 704584665624531406700634481270484767249"
  by code_simp

lemma index_keyL: "pubkeyToIndex (Some demoHash) keyL = Inr 10"
  by code_simp

lemma index_keyR: "pubkeyToIndex (Some demoHash) keyR = Inr 11"
  by code_simp

lemma treeLR_eq: "treeLR = demoTree\<lparr>leaves := [(10, 1), (11, 1)]\<rparr>"
  by (simp add: treeLR_def insert_default_def insert_smt_def index_keyL index_keyR demoTree_def)

lemma treeRL_eq: "treeRL = demoTree\<lparr>leaves := [(11, 1), (10, 1)]\<rparr>"
  by (simp add: treeRL_def insert_default_def insert_smt_def index_keyL index_keyR demoTree_def)

lemma wellFormed_demoTree: "wellFormed demoHash demoTree"
  using demoTree_new by (rule constructor_wellFormed)

lemma wellFormed_treeLR: "wellFormed demoHash treeLR"
  unfolding treeLR_def by (rule execAll_wellFormed [OF wellFormed_demoTree])

lemma wellFormed_treeRL: "wellFormed demoHash treeRL"
  unfolding treeRL_def by (rule execAll_wellFormed [OF wellFormed_demoTree])

lemma fieldToHex_255: "fieldToHex 255 = ''0x00000000000000000000000000000000000000000000000000000000000000ff''"
  by code_simp

subsection \<open>Overwriting, and the walk without a hasher\<close>

lemma update_twice: "AList.update k v2 (AList.update k v1 al) = AList.update k v2 al"
  by (induction al) auto

lemma one_entry_per_key:
  "distinct (map fst al) \<Longrightarrow> k \<in> fst ` set al \<Longrightarrow> length (filter (\<lambda>e. fst e = k) al) = 1"
proof (induction al)
  case Nil
  then show ?case by simp
next
  case (Cons e al)
  show ?case
  proof (cases "fst e = k")
    case True
    then have "k \<notin> fst ` set al" using Cons.prems(1) by auto
    then have "filter (\<lambda>e. fst e = k) al = []"
      by (auto simp: filter_empty_conv)
    then show ?thesis using True by simp
  next
    case False
    then have "k \<in> fst ` set al" using Cons.prems(2) by auto
    then show ?thesis using Cons False by simp
  qed
qed

lemma length_alist_update:
  "length (AList.update k v al) = (if k \<in> fst ` set al then length al else Suc (length al))"
  by (induction al) auto

lemma keys_update: "fst ` set (AList.update k v al) = insert k (fst ` set al)"
  using dom_update [of k v al] by (simp add: dom_map_of_conv_image_fst [symmetric] del: dom_update)

lemma update_nonempty: "AList.update k v al \<noteq> []"
  by (cases al) auto

lemma foldl_update_nonempty:
  "acc \<noteq> [] \<or> m \<noteq> [] \<Longrightarrow>
   foldl (\<lambda>currentLevel (indexStr, value). AList.update indexStr value currentLevel) acc m \<noteq> []"
proof (induction m arbitrary: acc)
  case Nil
  then show ?case by simp
next
  case (Cons e m)
  obtain k v where e: "e = (k, v)" by (cases e)
  show ?case
    using Cons.IH [of "AList.update k v acc"] e by (simp add: update_nonempty)
qed

lemma copyMap_nonempty: "m \<noteq> [] \<Longrightarrow> copyMap m \<noteq> []"
  by (simp add: copyMap_def foldl_update_nonempty)

lemma rootNextLevel_None:
  "cur \<noteq> [] \<Longrightarrow> rootNextLevel None d cur = Inl PoseidonNotInitialized"
  by (cases cur)
     (auto simp: rootNextLevel_def poseidonHash2_def getPoseidon_def Let_def split: prod.splits)

lemma getRoot_levels_None:
  assumes "leaves t \<noteq> []"
  shows "getRoot_levels None t = Inl PoseidonNotInitialized"
proof -
  have "[0..<TREE_DEPTH] = 0 # [1..<TREE_DEPTH]"
    by (simp add: TREE_DEPTH_def upt_conv_Cons)
  then show ?thesis
    using copyMap_nonempty [OF assms]
    by (simp add: getRoot_levels_def rootNextLevel_None)
qed

subsection \<open>Steps of the module\<close>

lemma step_noObjectBeforeInit:
  assumes "noObjectBeforeInit w" "step w a = Some (out, w')"
  shows "noObjectBeforeInit w'"
proof (cases a)
  case (InitPoseidon built)
  then show ?thesis
    using assms by (auto simp: noObjectBeforeInit_def initPoseidon_def split: option.splits)
next
  case New
  show ?thesis
  proof (cases "poseidonInstanceVar w")
    case None
    then show ?thesis
      using assms New by (simp add: constructor_None)
  next
    case (Some h)
    then show ?thesis
      using assms New by (auto simp: noObjectBeforeInit_def constructor_Some)
  qed
next
  case (Method i c)
  then show ?thesis
    using assms by (auto simp: noObjectBeforeInit_def split: if_splits prod.splits sum.splits)
qed

lemma run_noObjectBeforeInit:
  "noObjectBeforeInit w \<Longrightarrow> run actions w = Some w' \<Longrightarrow> noObjectBeforeInit w'"
proof (induction actions arbitrary: w)
  case Nil
  then show ?case by simp
next
  case (Cons a as)
  then obtain out w1 where s: "step w a = Some (out, w1)" "run as w1 = Some w'"
    by (auto split: option.splits)
  show ?case
    using Cons.IH [OF step_noObjectBeforeInit [OF Cons.prems(1) s(1)] s(2)] .
qed

text \<open>
  The shortcut of \<open>getRoot\<close> on an empty leaf map returns the stored entry and asks for
  no hash; by \<open>run_noObjectBeforeInit\<close> there is no object to call it on while the
  variable is unset.
\<close>

lemma getRoot_None_empty:
  "leaves t = [] \<Longrightarrow> getRoot None t = Inr (defaultHashes t ! TREE_DEPTH)"
  by (simp add: getRoot_def)

lemma run_demo:
  "run [New, InitPoseidon demoHash, New, Method 0 (Insert keyL None), Method 0 (Insert keyR None)] initWorld
     = Some \<lparr>poseidonInstanceVar = Some demoHash, objects = [treeLR]\<rparr>"
  by (simp add: initWorld_def constructor_None initPoseidon_def demoTree_new treeLR_eq
        insert_default_def insert_smt_def index_keyL index_keyR)
     (simp add: demoTree_def)

section \<open>The claims\<close>

text \<open>
  Claim C1 (exclusion round trip). Let the hasher return values in \<open>[0, 2 ^ 254)\<close>, as
  a field element of the proving curve is, and let the object be the one the constructor
  built, after any sequence of method calls. For a 32-byte key, when no \<open>insert\<close> among the
  calls was made for a key with the same leaf index (the tree stores indices, never keys),
  \<open>getMerkleProof\<close> returns leaf value 0 and 254 siblings, and folding the siblings from 0
  upward, argument order by the bits of the leaf index, gives what \<open>getRoot\<close> returns on
  the same object.
\<close>

theorem exclusion_round_trip:
  assumes range: "\<forall>a b. 0 \<le> h a b \<and> h a b < 2 ^ TREE_DEPTH"
    and new: "SparseMerkleTree_constructor (Some h) = Inr t0"
    and reached: "t = execAll (Some h) calls t0"
    and len: "length pubkey = 32"
    and never: "\<forall>k v. Insert k v \<in> set calls \<longrightarrow>
                  pubkeyToIndex (Some h) k \<noteq> pubkeyToIndex (Some h) pubkey"
  shows "\<exists>index siblings.
           pubkeyToIndex (Some h) pubkey = Inr index
         \<and> getMerkleProof (Some h) pubkey t = Inr (siblings, 0)
         \<and> length siblings = TREE_DEPTH
         \<and> getRoot (Some h) t = Inr (foldSiblings h index 0 siblings)"
proof -
  obtain index where idx: "pubkeyToIndex (Some h) pubkey = Inr index"
    and r: "0 \<le> index" "index < 2 ^ TREE_DEPTH"
    using pubkeyToIndex_32 [OF len, of h] range by simp
  have wf: "wellFormed h t"
    using constructor_wellFormed [OF new] reached by (simp add: execAll_wellFormed)
  have "leaves t0 = []" using new by (auto simp: constructor_Some)
  then have "index \<notin> fst ` set (leaves t0)" by simp
  then have "index \<notin> fst ` set (leaves t)"
    unfolding reached using never idx by (intro execAll_absent) simp_all
  then have "map_of (leaves t) index = None"
    by (simp add: map_of_eq_None_iff)
  then have "nodeOr (map_of (leaves t)) 0 index = 0"
    by (simp add: nodeOr_def)
  then show ?thesis
    using roundTrip [OF wf idx r] idx by auto
qed

theorem exclusion_round_trip_witness:
  "length keyC = 32
   \<and> pubkeyToIndex (Some demoHash) keyA \<noteq> pubkeyToIndex (Some demoHash) keyC
   \<and> pubkeyToIndex (Some demoHash) keyB \<noteq> pubkeyToIndex (Some demoHash) keyC
   \<and> (\<exists>index siblings.
         pubkeyToIndex (Some demoHash) keyC = Inr index
       \<and> getMerkleProof (Some demoHash) keyC
            (execAll (Some demoHash) [Insert keyA None, Insert keyB (Some 1)] demoTree)
           = Inr (siblings, 0)
       \<and> length siblings = TREE_DEPTH
       \<and> getRoot (Some demoHash)
            (execAll (Some demoHash) [Insert keyA None, Insert keyB (Some 1)] demoTree)
           = Inr (foldSiblings demoHash index 0 siblings))"
proof -
  have len: "length keyC = 32" by (simp add: keyC_def)
  have never: "\<forall>k v. Insert k v \<in> set [Insert keyA None, Insert keyB (Some 1)] \<longrightarrow>
          pubkeyToIndex (Some demoHash) k \<noteq> pubkeyToIndex (Some demoHash) keyC"
    by (auto simp: index_keyA index_keyB index_keyC)
  have ne: "pubkeyToIndex (Some demoHash) keyA \<noteq> pubkeyToIndex (Some demoHash) keyC"
    "pubkeyToIndex (Some demoHash) keyB \<noteq> pubkeyToIndex (Some demoHash) keyC"
    by (simp_all add: index_keyA index_keyB index_keyC)
  show ?thesis
    using len ne exclusion_round_trip [OF demoHash_range demoTree_new refl len never]
    by blast
qed

text \<open>
  Claim C2 (inclusion round trip). Under the same assumptions on hasher and object, for
  every 32-byte key and value \<open>v\<close>: \<open>insert\<close> succeeds, and on the object it leaves
  \<open>getMerkleProof\<close> returns leaf value \<open>v\<close> and 254 siblings whose fold from \<open>v\<close> is the
  value of \<open>getRoot\<close>.
\<close>

theorem inclusion_round_trip:
  assumes range: "\<forall>a b. 0 \<le> h a b \<and> h a b < 2 ^ TREE_DEPTH"
    and new: "SparseMerkleTree_constructor (Some h) = Inr t0"
    and reached: "t = execAll (Some h) calls t0"
    and len: "length pubkey = 32"
  shows "\<exists>t' index siblings.
           insert_smt (Some h) pubkey v t = Inr t'
         \<and> pubkeyToIndex (Some h) pubkey = Inr index
         \<and> getMerkleProof (Some h) pubkey t' = Inr (siblings, v)
         \<and> length siblings = TREE_DEPTH
         \<and> getRoot (Some h) t' = Inr (foldSiblings h index v siblings)"
proof -
  obtain index where idx: "pubkeyToIndex (Some h) pubkey = Inr index"
    and r: "0 \<le> index" "index < 2 ^ TREE_DEPTH"
    using pubkeyToIndex_32 [OF len, of h] range by simp
  let ?t' = "t\<lparr>leaves := AList.update index v (leaves t)\<rparr>"
  have ins: "insert_smt (Some h) pubkey v t = Inr ?t'"
    using idx by (simp add: insert_smt_def)
  have "wellFormed h t"
    using constructor_wellFormed [OF new] reached by (simp add: execAll_wellFormed)
  then have wf: "wellFormed h ?t'"
    using ins by (rule insert_smt_wellFormed)
  have "nodeOr (map_of (leaves ?t')) 0 index = v"
    by (simp add: nodeOr_def update_conv')
  then show ?thesis
    using roundTrip [OF wf idx r] idx ins by auto
qed

theorem inclusion_round_trip_witness:
  "length keyB = 32
   \<and> (\<exists>t' index siblings.
         insert_smt (Some demoHash) keyB 7 (execAll (Some demoHash) [Insert keyA None] demoTree) = Inr t'
       \<and> pubkeyToIndex (Some demoHash) keyB = Inr index
       \<and> getMerkleProof (Some demoHash) keyB t' = Inr (siblings, 7)
       \<and> length siblings = TREE_DEPTH
       \<and> getRoot (Some demoHash) t' = Inr (foldSiblings demoHash index 7 siblings))"
proof -
  have len: "length keyB = 32" by (simp add: keyB_def)
  show ?thesis
    using len inclusion_round_trip [OF demoHash_range demoTree_new refl len, where calls = "[Insert keyA None]" and v = 7]
    by blast
qed

text \<open>
  Claim C3 (index derivation and the key length), as amended. \<open>pubkeyToIndex\<close> has no
  length check and no error for it. A key shorter than 32 bytes makes \<open>BigInt\<close> throw a
  \<open>TypeError\<close> on the first byte past its end, whatever the hasher's state; a key of 32
  bytes or more, under an initialised hasher, gives \<open>hash2(low, high)\<close> of the two
  little-endian 16-byte halves of its first 32 bytes, and the bytes after them are ignored.
  The claim as stated fails on a 33-byte key, which is accepted.
\<close>

theorem index_derivation:
  "(length pubkey < 32 \<longrightarrow> pubkeyToIndex poseidonInstance pubkey = Inl TypeError)
   \<and> (32 \<le> length pubkey \<longrightarrow>
        pubkeyToIndex (Some h) pubkey
          = Inr (h (le_value (take 16 pubkey)) (le_value (take 16 (drop 16 pubkey)))))"
proof (intro conjI impI)
  assume "length pubkey < 32"
  then show "pubkeyToIndex poseidonInstance pubkey = Inl TypeError"
    by (rule pubkeyToIndex_short)
next
  assume "32 \<le> length pubkey"
  then have "pubkeyToIndex (Some h) pubkey
      = poseidonHash2 (Some h) (le_value (take 16 pubkey)) (le_value (take 16 (drop 16 pubkey)))"
    by (rule pubkeyToIndex_long)
  then show "pubkeyToIndex (Some h) pubkey
      = Inr (h (le_value (take 16 pubkey)) (le_value (take 16 (drop 16 pubkey))))"
    by (simp add: poseidonHash2_def getPoseidon_def)
qed

theorem index_derivation_witness:
  "pubkeyToIndex None [1, 2, 3] = Inl TypeError
   \<and> pubkeyToIndex (Some demoHash) (keyC @ [9])
        = Inr (demoHash (le_value (take 16 (keyC @ [9]))) (le_value (take 16 (drop 16 (keyC @ [9])))))
   \<and> pubkeyToIndex (Some demoHash) keyC
        = Inr (demoHash (le_value (take 16 keyC)) (le_value (take 16 (drop 16 keyC))))"
proof -
  have a: "length [1, 2, 3 :: int] < 32" by simp
  have b: "32 \<le> length (keyC @ [9])" by (simp add: keyC_def)
  have c: "32 \<le> length keyC" by (simp add: keyC_def)
  show ?thesis
    using index_derivation [of "[1, 2, 3]" None] a
        index_derivation [of "keyC @ [9]" _ demoHash] b
        index_derivation [of keyC _ demoHash] c
    by blast
qed

theorem index_derivation_overlong_counterexample:
  "length (replicate 33 (0::int)) = 33 \<and> pubkeyToIndex (Some demoHash) (replicate 33 0) = Inr 1"
  by code_simp

text \<open>
  Claim C4 (default hash ladder). Under an initialised hasher the constructor succeeds;
  the ladder it stores has exactly 255 entries, \<open>D[0] = 0\<close> and
  \<open>D[i] = hash2(D[i-1], D[i-1])\<close> for \<open>i\<close> from 1 to 254; and after any sequence of method
  calls (\<open>insert\<close>, \<open>get\<close>, \<open>isBlacklisted\<close>, \<open>getRoot\<close>, \<open>getMerkleProof\<close>,
  \<open>getEmptyRoot\<close>), under any state of the hasher, the ladder is the same list.
\<close>

theorem default_ladder_fixed:
  "\<exists>t. SparseMerkleTree_constructor (Some h) = Inr t
       \<and> length (defaultHashes t) = 255
       \<and> defaultHashes t ! 0 = 0
       \<and> (\<forall>i \<in> {1..254}. defaultHashes t ! i = h (defaultHashes t ! (i - 1)) (defaultHashes t ! (i - 1)))
       \<and> (\<forall>p calls. defaultHashes (execAll p calls t) = defaultHashes t)"
proof -
  let ?t = "\<lparr>leaves = [], defaultHashes = ladder h TREE_DEPTH\<rparr>"
  have new: "SparseMerkleTree_constructor (Some h) = Inr ?t"
    by (rule constructor_Some)
  have "isLadder h (defaultHashes ?t)"
    using constructor_wellFormed [OF new] by (simp add: wellFormed_def)
  then have "length (defaultHashes ?t) = 255
       \<and> defaultHashes ?t ! 0 = 0
       \<and> (\<forall>i \<in> {1..254}. defaultHashes ?t ! i = h (defaultHashes ?t ! (i - 1)) (defaultHashes ?t ! (i - 1)))
       \<and> (\<forall>p calls. defaultHashes (execAll p calls ?t) = defaultHashes ?t)"
    by (simp add: isLadder_def TREE_DEPTH_def execAll_defaultHashes)
  then show ?thesis
    using new by blast
qed

theorem default_ladder_fixed_witness:
  "SparseMerkleTree_constructor (Some demoHash) = Inr demoTree
   \<and> length (defaultHashes demoTree) = 255
   \<and> defaultHashes demoTree ! 0 = 0
   \<and> defaultHashes demoTree ! 254
        = demoHash (defaultHashes demoTree ! (254 - 1)) (defaultHashes demoTree ! (254 - 1))
   \<and> defaultHashes (execAll (Some demoHash) [Insert keyA None, GetRoot, GetMerkleProof keyB] demoTree)
        = defaultHashes demoTree"
proof -
  have m: "(254::nat) \<in> {1..254}" by simp
  obtain t where t: "SparseMerkleTree_constructor (Some demoHash) = Inr t"
    "length (defaultHashes t) = 255" "defaultHashes t ! 0 = 0"
    "\<forall>i \<in> {1..254}. defaultHashes t ! i
        = demoHash (defaultHashes t ! (i - 1)) (defaultHashes t ! (i - 1))"
    "\<forall>p calls. defaultHashes (execAll p calls t) = defaultHashes t"
    using default_ladder_fixed [of demoHash] by blast
  have "t = demoTree" using t(1) demoTree_new by simp
  then show ?thesis
    using t m demoTree_new by blast
qed

text \<open>
  Claim C5 (empty-tree root). On the object the constructor returns, \<open>getRoot\<close> returns
  \<open>D[254]\<close>; \<open>getEmptyRoot\<close> returns \<open>D[254]\<close> on every object and after any sequence of
  method calls; so on the fresh object \<open>getRoot\<close> returns what \<open>getEmptyRoot\<close> returns.
\<close>

theorem empty_root:
  "(\<forall>t'. getEmptyRoot t' = defaultHashes t' ! TREE_DEPTH)
   \<and> (\<exists>t. SparseMerkleTree_constructor (Some h) = Inr t
          \<and> defaultHashes t = ladder h TREE_DEPTH
          \<and> getRoot (Some h) t = Inr (defaultHashes t ! TREE_DEPTH)
          \<and> (\<forall>p calls. getEmptyRoot (execAll p calls t) = defaultHashes t ! TREE_DEPTH)
          \<and> getRoot (Some h) t = Inr (getEmptyRoot t))"
proof -
  let ?t = "\<lparr>leaves = [], defaultHashes = ladder h TREE_DEPTH\<rparr>"
  have "getRoot (Some h) ?t = Inr (defaultHashes ?t ! TREE_DEPTH)"
    by (simp add: getRoot_def)
  moreover have "\<forall>p calls. getEmptyRoot (execAll p calls ?t) = defaultHashes ?t ! TREE_DEPTH"
    by (simp add: getEmptyRoot_def execAll_defaultHashes)
  moreover have "getRoot (Some h) ?t = Inr (getEmptyRoot ?t)"
    by (simp add: getRoot_def getEmptyRoot_def)
  moreover have "defaultHashes ?t = ladder h TREE_DEPTH" by simp
  ultimately have "\<exists>t. SparseMerkleTree_constructor (Some h) = Inr t
          \<and> defaultHashes t = ladder h TREE_DEPTH
          \<and> getRoot (Some h) t = Inr (defaultHashes t ! TREE_DEPTH)
          \<and> (\<forall>p calls. getEmptyRoot (execAll p calls t) = defaultHashes t ! TREE_DEPTH)
          \<and> getRoot (Some h) t = Inr (getEmptyRoot t)"
    using constructor_Some [of h] by blast
  then show ?thesis
    by (simp add: getEmptyRoot_def)
qed

theorem empty_root_witness:
  "SparseMerkleTree_constructor (Some demoHash) = Inr demoTree
   \<and> getEmptyRoot demoTree = defaultHashes demoTree ! TREE_DEPTH
   \<and> getRoot (Some demoHash) demoTree = Inr (defaultHashes demoTree ! TREE_DEPTH)
   \<and> getEmptyRoot (execAll (Some demoHash) [Insert keyA None] demoTree)
        = defaultHashes demoTree ! TREE_DEPTH
   \<and> getRoot (Some demoHash) demoTree = Inr (getEmptyRoot demoTree)"
proof -
  obtain t where t: "SparseMerkleTree_constructor (Some demoHash) = Inr t"
    "getRoot (Some demoHash) t = Inr (defaultHashes t ! TREE_DEPTH)"
    "\<forall>p calls. getEmptyRoot (execAll p calls t) = defaultHashes t ! TREE_DEPTH"
    "getRoot (Some demoHash) t = Inr (getEmptyRoot t)"
    using empty_root [of demoHash] by blast
  have all: "\<forall>t'. getEmptyRoot t' = defaultHashes t' ! TREE_DEPTH"
    using empty_root [of demoHash] by blast
  have "t = demoTree" using t(1) demoTree_new by simp
  then show ?thesis
    using t all demoTree_new by blast
qed

text \<open>
  Claim C6 (insertion overwrites by key). On an object whose leaf map has each key once,
  \<open>insert(X, v1)\<close> followed by \<open>insert(X, v2)\<close> leaves exactly one entry at the index of
  \<open>X\<close>, holding \<open>v2\<close>, so \<open>get(X)\<close> returns \<open>v2\<close>; the second call adds no entry; the
  outcome is that of \<open>insert(X, v2)\<close> alone; and with \<open>v1 = v2\<close> the second call leaves
  the object, hence \<open>getRoot\<close>, as the first call left it.
\<close>

theorem insert_overwrites:
  assumes "distinct (map fst (leaves t))"
    and "insert_smt poseidonInstance pubkey v1 t = Inr t1"
    and "insert_smt poseidonInstance pubkey v2 t1 = Inr t2"
  shows "get poseidonInstance pubkey t2 = Inr v2
       \<and> (\<exists>index. pubkeyToIndex poseidonInstance pubkey = Inr index
              \<and> filter (\<lambda>e. fst e = index) (leaves t2) = [(index, v2)])
       \<and> length (leaves t2) = length (leaves t1)
       \<and> insert_smt poseidonInstance pubkey v2 t = Inr t2
       \<and> (v1 = v2 \<longrightarrow> t2 = t1 \<and> getRoot poseidonInstance t2 = getRoot poseidonInstance t1)"
proof -
  obtain index where idx: "pubkeyToIndex poseidonInstance pubkey = Inr index"
    and t1: "t1 = t\<lparr>leaves := AList.update index v1 (leaves t)\<rparr>"
    using assms(2) by (auto simp: insert_smt_def split: sum.splits)
  have t2: "t2 = t\<lparr>leaves := AList.update index v2 (leaves t)\<rparr>"
    using assms(3) idx t1 by (auto simp: insert_smt_def update_twice)
  let ?al = "AList.update index v2 (leaves t)"
  have d: "distinct (map fst ?al)" using assms(1) by (simp add: distinct_update)
  have k: "index \<in> fst ` set ?al" by (simp add: keys_update)
  have one: "length (filter (\<lambda>e. fst e = index) ?al) = 1"
    using d k by (rule one_entry_per_key)
  have look: "map_of ?al index = Some v2" by (simp add: update_conv')
  then have mem: "(index, v2) \<in> set (filter (\<lambda>e. fst e = index) ?al)"
    by (auto dest: map_of_SomeD)
  have f: "filter (\<lambda>e. fst e = index) ?al = [(index, v2)]"
  proof (cases "filter (\<lambda>e. fst e = index) ?al")
    case Nil
    then show ?thesis using one by simp
  next
    case (Cons e rest)
    then have "rest = []" using one by simp
    then show ?thesis using Cons mem by simp
  qed
  have len: "length (leaves t2) = length (leaves t1)"
    using t1 t2 by (simp add: length_alist_update)
  show ?thesis
    using idx t1 t2 f len look
    by (auto simp: get_def insert_smt_def)
qed

theorem insert_overwrites_witness:
  "distinct (map fst (leaves demoTree))
   \<and> insert_smt (Some demoHash) keyA 1 demoTree = Inr (demoTree\<lparr>leaves := [(1, 1)]\<rparr>)
   \<and> insert_smt (Some demoHash) keyA 2 (demoTree\<lparr>leaves := [(1, 1)]\<rparr>)
        = Inr (demoTree\<lparr>leaves := [(1, 2)]\<rparr>)
   \<and> get (Some demoHash) keyA (demoTree\<lparr>leaves := [(1, 2)]\<rparr>) = Inr 2
   \<and> length (leaves (demoTree\<lparr>leaves := [(1, 2)]\<rparr>)) = length (leaves (demoTree\<lparr>leaves := [(1, 1)]\<rparr>))
   \<and> insert_smt (Some demoHash) keyA 1 (demoTree\<lparr>leaves := [(1, 1)]\<rparr>)
        = Inr (demoTree\<lparr>leaves := [(1, 1)]\<rparr>)"
proof -
  have d: "distinct (map fst (leaves demoTree))"
    by (simp add: demoTree_def)
  have a: "insert_smt (Some demoHash) keyA 1 demoTree = Inr (demoTree\<lparr>leaves := [(1, 1)]\<rparr>)"
    by (simp add: insert_smt_def index_keyA demoTree_def)
  have b: "insert_smt (Some demoHash) keyA 2 (demoTree\<lparr>leaves := [(1, 1)]\<rparr>)
        = Inr (demoTree\<lparr>leaves := [(1, 2)]\<rparr>)"
    by (simp add: insert_smt_def index_keyA demoTree_def)
  have c: "insert_smt (Some demoHash) keyA 1 (demoTree\<lparr>leaves := [(1, 1)]\<rparr>)
        = Inr (demoTree\<lparr>leaves := [(1, 1)]\<rparr>)"
    by (simp add: insert_smt_def index_keyA demoTree_def)
  show ?thesis
    using d a b c insert_overwrites [OF d a b] insert_overwrites [OF d a c]
    by blast
qed

text \<open>
  Claim C7 (the root is a function of the leaf map). Two objects built under the same
  hasher whose leaf maps hold the same (index, value) pairs, in whatever insertion order,
  give the same value of \<open>getRoot\<close>, and it is a value, not an exception; a call of
  \<open>getRoot\<close> leaves the object as it was, so a second call returns the same. This covers
  maps in which both children of a parent are present.
\<close>

theorem getRoot_pure:
  assumes "wellFormed h t1" "wellFormed h t2" "set (leaves t1) = set (leaves t2)"
  shows "getRoot (Some h) t1 = getRoot (Some h) t2
       \<and> (\<exists>r. getRoot (Some h) t1 = Inr r)
       \<and> snd (exec (Some h) GetRoot t1) = t1
       \<and> fst (exec (Some h) GetRoot (snd (exec (Some h) GetRoot t1))) = fst (exec (Some h) GetRoot t1)"
proof -
  have d1: "distinct (map fst (leaves t1))" and d2: "distinct (map fst (leaves t2))"
    using assms(1,2) by (simp_all add: wellFormed_def)
  have "isLadder h (defaultHashes t1)" "isLadder h (defaultHashes t2)"
    using assms(1,2) by (simp_all add: wellFormed_def)
  then have D: "defaultHashes t1 = defaultHashes t2"
    using isLadder_unique [of h "defaultHashes t1"] isLadder_unique [of h "defaultHashes t2"]
    by simp
  have m: "map_of (leaves t1) = map_of (leaves t2)"
    using d1 d2 assms(3) by (simp add: map_of_inject_set)
  have same: "snd (exec (Some h) GetRoot t1) = t1"
    by (simp split: sum.splits)
  show ?thesis
    unfolding same using getRoot_Some [OF d1, of h] getRoot_Some [OF d2, of h] D m by simp
qed

theorem getRoot_pure_witness:
  "wellFormed demoHash treeLR \<and> wellFormed demoHash treeRL
   \<and> leaves treeLR = [(10, 1), (11, 1)] \<and> leaves treeRL = [(11, 1), (10, 1)]
   \<and> set (leaves treeLR) = set (leaves treeRL)
   \<and> getRoot (Some demoHash) treeLR = getRoot (Some demoHash) treeRL
   \<and> (\<exists>r. getRoot (Some demoHash) treeLR = Inr r)
   \<and> snd (exec (Some demoHash) GetRoot treeLR) = treeLR"
proof -
  have l: "leaves treeLR = [(10, 1), (11, 1)]" "leaves treeRL = [(11, 1), (10, 1)]"
    by (simp_all add: treeLR_eq treeRL_eq)
  then have s: "set (leaves treeLR) = set (leaves treeRL)"
    by auto
  show ?thesis
    using l s wellFormed_treeLR wellFormed_treeRL
      getRoot_pure [OF wellFormed_treeLR wellFormed_treeRL s]
    by blast
qed

text \<open>
  Claim C8 (the fallback of \<open>getRoot\<close> is not taken). When the leaf map is not empty, has
  each key once and all its keys lie in \<open>[0, 2 ^ 254)\<close>, the map left after the 254
  levels is the single entry at index 0, and \<open>getRoot\<close> returns the value of that entry.
\<close>

theorem root_entry_exists:
  assumes "distinct (map fst (leaves t))"
    and "leaves t \<noteq> []"
    and "\<forall>k \<in> fst ` set (leaves t). 0 \<le> k \<and> k < 2 ^ TREE_DEPTH"
  shows "\<exists>r. getRoot_levels (Some h) t = Inr [(0, r)] \<and> getRoot (Some h) t = Inr r"
proof -
  obtain cur where cur: "getRoot_levels (Some h) t = Inr cur" "distinct (map fst cur)"
    "map_of cur = levelMap h (defaultHashes t) (map_of (leaves t)) TREE_DEPTH"
    using getRoot_levels_Some [OF assms(1)] by blast
  have "fst ` set cur = dom (map_of cur)"
    by (simp add: dom_map_of_conv_image_fst)
  also have "\<dots> = (\<lambda>k. k div 2 ^ TREE_DEPTH) ` fst ` set (leaves t)"
    by (simp add: cur(3) dom_levelMap dom_map_of_conv_image_fst)
  also have "\<dots> = {0}"
  proof -
    let ?S = "(\<lambda>k. k div 2 ^ TREE_DEPTH) ` fst ` set (leaves t)"
    have z: "k div 2 ^ TREE_DEPTH = 0" if "k \<in> fst ` set (leaves t)" for k
    proof -
      have "0 \<le> k \<and> k < 2 ^ TREE_DEPTH" using assms(3) that by blast
      then show ?thesis by (simp add: div_pos_pos_trivial)
    qed
    have sub: "?S \<subseteq> {0}"
    proof
      fix x assume "x \<in> ?S"
      then obtain k where "k \<in> fst ` set (leaves t)" "x = k div 2 ^ TREE_DEPTH"
        by (rule imageE)
      then show "x \<in> {0}" using z by simp
    qed
    have ne: "?S \<noteq> {}"
      using assms(2) by simp
    show ?thesis
      using subset_singletonD [OF sub] ne by simp
  qed
  finally obtain r where r: "cur = [(0, r)]"
    using single_entry [OF cur(2)] by blast
  show ?thesis
    using cur(1) r assms(2) by (simp add: getRoot_def)
qed

theorem root_entry_exists_witness:
  "leaves treeLR = [(10, 1), (11, 1)]
   \<and> (\<exists>r. getRoot_levels (Some demoHash) treeLR = Inr [(0, r)]
          \<and> getRoot (Some demoHash) treeLR = Inr r)"
proof -
  have l: "leaves treeLR = [(10, 1), (11, 1)]"
    by (simp add: treeLR_eq)
  have d: "distinct (map fst (leaves treeLR))" and n: "leaves treeLR \<noteq> []"
    and r: "\<forall>k \<in> fst ` set (leaves treeLR). 0 \<le> k \<and> k < 2 ^ TREE_DEPTH"
    by (simp_all add: l TREE_DEPTH_def)
  show ?thesis
    using l root_entry_exists [OF d n r, of demoHash] by blast
qed

text \<open>
  Claim C9 (calls before the hasher is initialised). In every state the module reaches
  from its start in which \<open>poseidonInstance\<close> is still unset: no object exists; building
  one throws; every tree operation a program can invoke there throws and changes nothing.
  The hash primitive itself throws on the unset variable, so no value is ever computed
  with it: taken on their own, \<open>insert\<close>, \<open>get\<close>, \<open>isBlacklisted\<close> and \<open>getMerkleProof\<close>
  throw on any object (the \<open>TypeError\<close> of a short key comes first), and \<open>getRoot\<close>
  throws on every leaf map that makes it hash, that is, on every non-empty one.
\<close>

theorem uninitialized_hasher:
  assumes "run actions initWorld = Some w" and "poseidonInstanceVar w = None"
  shows "objects w = []
   \<and> step w New = Some (Threw PoseidonNotInitialized, w)
   \<and> (\<forall>a out w'. step w a = Some (out, w') \<and> (\<forall>built. a \<noteq> InitPoseidon built)
          \<longrightarrow> (\<exists>e. out = Threw e) \<and> w' = w)
   \<and> (\<forall>left right. poseidonHash2 None left right = Inl PoseidonNotInitialized)
   \<and> SparseMerkleTree_constructor None = Inl PoseidonNotInitialized
   \<and> (\<forall>pubkey v t. insert_smt None pubkey v t
          = Inl (if length pubkey < 32 then TypeError else PoseidonNotInitialized))
   \<and> (\<forall>pubkey t. get None pubkey t
          = Inl (if length pubkey < 32 then TypeError else PoseidonNotInitialized))
   \<and> (\<forall>pubkey t. isBlacklisted None pubkey t
          = Inl (if length pubkey < 32 then TypeError else PoseidonNotInitialized))
   \<and> (\<forall>pubkey t. getMerkleProof None pubkey t
          = Inl (if length pubkey < 32 then TypeError else PoseidonNotInitialized))
   \<and> (\<forall>t. leaves t \<noteq> [] \<longrightarrow> getRoot None t = Inl PoseidonNotInitialized)"
proof -
  have "noObjectBeforeInit initWorld"
    by (simp add: noObjectBeforeInit_def initWorld_def)
  then have "noObjectBeforeInit w"
    using assms(1) by (rule run_noObjectBeforeInit)
  then have none: "objects w = []"
    using assms(2) by (simp add: noObjectBeforeInit_def)
  have new: "step w New = Some (Threw PoseidonNotInitialized, w)"
    using assms(2) by (simp add: constructor_None)
  have every: "(\<exists>e. out = Threw e) \<and> w' = w"
    if "step w a = Some (out, w')" "\<forall>built. a \<noteq> InitPoseidon built" for a out w'
  proof (cases a)
    case (InitPoseidon built)
    then show ?thesis using that(2) by simp
  next
    case New
    then show ?thesis using that(1) new by simp
  next
    case (Method i c)
    then show ?thesis using that(1) none by simp
  qed
  have idx: "pubkeyToIndex None pubkey
       = Inl (if length pubkey < 32 then TypeError else PoseidonNotInitialized)" for pubkey
    using pubkeyToIndex_short [of pubkey None] pubkeyToIndex_long [of pubkey None]
    by (simp add: poseidonHash2_def getPoseidon_def)
  have root: "leaves t \<noteq> [] \<longrightarrow> getRoot None t = Inl PoseidonNotInitialized" for t
    by (simp add: getRoot_def getRoot_levels_None)
  have hash: "poseidonHash2 None left right = Inl PoseidonNotInitialized" for left right
    by (simp add: poseidonHash2_def getPoseidon_def)
  have step_all: "\<forall>a out w'. step w a = Some (out, w') \<and> (\<forall>built. a \<noteq> InitPoseidon built)
          \<longrightarrow> (\<exists>e. out = Threw e) \<and> w' = w"
    using every by blast
  have methods: "(\<forall>pubkey v t. insert_smt None pubkey v t
          = Inl (if length pubkey < 32 then TypeError else PoseidonNotInitialized))
   \<and> (\<forall>pubkey t. get None pubkey t
          = Inl (if length pubkey < 32 then TypeError else PoseidonNotInitialized))
   \<and> (\<forall>pubkey t. isBlacklisted None pubkey t
          = Inl (if length pubkey < 32 then TypeError else PoseidonNotInitialized))
   \<and> (\<forall>pubkey t. getMerkleProof None pubkey t
          = Inl (if length pubkey < 32 then TypeError else PoseidonNotInitialized))"
    using idx by (simp add: insert_smt_def get_def isBlacklisted_def getMerkleProof_def)
  show ?thesis
    using none new step_all hash constructor_None methods root by blast
qed

theorem uninitialized_hasher_witness:
  "run [New, New] initWorld = Some initWorld
   \<and> poseidonInstanceVar initWorld = None
   \<and> objects initWorld = []
   \<and> step initWorld New = Some (Threw PoseidonNotInitialized, initWorld)
   \<and> step initWorld (Method 0 GetRoot) = None
   \<and> run [New, InitPoseidon demoHash, New, Method 0 (Insert keyL None), Method 0 (Insert keyR None)]
          initWorld
        = Some \<lparr>poseidonInstanceVar = Some demoHash, objects = [treeLR]\<rparr>
   \<and> poseidonHash2 None 1 2 = Inl PoseidonNotInitialized
   \<and> insert_smt None keyA 1 demoTree = Inl PoseidonNotInitialized
   \<and> get None keyA demoTree = Inl PoseidonNotInitialized
   \<and> isBlacklisted None keyA demoTree = Inl PoseidonNotInitialized
   \<and> getMerkleProof None keyA demoTree = Inl PoseidonNotInitialized
   \<and> getMerkleProof None [1, 2, 3] demoTree = Inl TypeError
   \<and> getRoot None treeLR = Inl PoseidonNotInitialized"
proof -
  have r: "run [New, New] initWorld = Some initWorld"
    by (simp add: initWorld_def constructor_None)
  have n: "poseidonInstanceVar initWorld = None"
    by (simp add: initWorld_def)
  have m: "step initWorld (Method 0 GetRoot) = None"
    by (simp add: initWorld_def)
  have a: "\<not> length keyA < 32" by (simp add: keyA_def)
  have b: "length [1, 2, 3 :: int] < 32" by simp
  have c: "leaves treeLR \<noteq> []" by (simp add: treeLR_eq)
  note u = uninitialized_hasher [OF r n]
  have u1: "objects initWorld = []"
    "step initWorld New = Some (Threw PoseidonNotInitialized, initWorld)"
    "poseidonHash2 None 1 2 = Inl PoseidonNotInitialized"
    using u by blast+
  have u2: "insert_smt None keyA 1 demoTree = Inl PoseidonNotInitialized"
    "get None keyA demoTree = Inl PoseidonNotInitialized"
    "isBlacklisted None keyA demoTree = Inl PoseidonNotInitialized"
    "getMerkleProof None keyA demoTree = Inl PoseidonNotInitialized"
    using u a by simp_all
  have u3: "getMerkleProof None [1, 2, 3] demoTree = Inl TypeError"
    using u b by simp
  have u4: "getRoot None treeLR = Inl PoseidonNotInitialized"
    using u c by blast
  show ?thesis
    using r n m run_demo u1 u2 u3 u4 by blast
qed

text \<open>
  Claim C10 (hex rendering of a field element). For \<open>0 \<le> f < 2 ^ 254\<close>, \<open>fieldToHex f\<close>
  is \<open>0x\<close> followed by exactly 64 characters, each a lowercase hexadecimal digit, which
  read as a big-endian hexadecimal numeral are \<open>f\<close>: the zero-padded encoding of \<open>f\<close>.
\<close>

theorem fieldToHex_canonical:
  assumes "0 \<le> f" "f < 2 ^ 254"
  shows "take 2 (fieldToHex f) = ''0x''
       \<and> length (drop 2 (fieldToHex f)) = 64
       \<and> set (drop 2 (fieldToHex f)) \<subseteq> set ''0123456789abcdef''
       \<and> int (hexValue (drop 2 (fieldToHex f))) = f"
proof -
  let ?s = "natToHex (nat f)"
  have "nat f < 2 ^ 254" using assms by (simp add: nat_less_iff)
  also have "(2::nat) ^ 254 < 16 ^ 64" by simp
  finally have "length ?s \<le> 64" by (intro natToHex_length) simp_all
  then have len: "length (padStart 64 (CHR ''0'') ?s) = 64"
    by (simp add: padStart_def)
  have chars: "set (padStart 64 (CHR ''0'') ?s) \<subseteq> set ''0123456789abcdef''"
    using natToHex_lower [of "nat f"] by (auto simp: padStart_def)
  have val: "hexValue (padStart 64 (CHR ''0'') ?s) = nat f"
    by (simp add: padStart_def hexValue_zeros natToHex_value)
  have "fieldToHex f = ''0x'' @ padStart 64 (CHR ''0'') ?s"
    using assms(1) by (simp add: fieldToHex_def toString16_def)
  then show ?thesis
    using len chars val assms(1) by simp
qed

theorem fieldToHex_canonical_witness:
  "(0::int) \<le> 255 \<and> (255::int) < 2 ^ 254
   \<and> fieldToHex 255 = ''0x00000000000000000000000000000000000000000000000000000000000000ff''
   \<and> take 2 (fieldToHex 255) = ''0x''
   \<and> length (drop 2 (fieldToHex 255)) = 64
   \<and> set (drop 2 (fieldToHex 255)) \<subseteq> set ''0123456789abcdef''
   \<and> int (hexValue (drop 2 (fieldToHex 255))) = 255"
proof -
  have a: "(0::int) \<le> 255" and b: "(255::int) < 2 ^ 254" by simp_all
  show ?thesis
    using a b fieldToHex_255 fieldToHex_canonical [OF a b] by blast
qed

end
